theory Spec2Isabelle
  imports Main "HOL-Library.Sublist"
begin

section \<open>Python strings\<close>

text \<open>
  A Python \<open>str\<close> is a sequence of Unicode code points and \<open>len\<close> counts code points,
  so a string is a list of code points. The box-drawing characters of the table test lie
  outside ASCII, which is why bytes would not do.
\<close>

type_synonym ustr = "nat list"

abbreviation TAB :: nat where "TAB \<equiv> 9"
abbreviation NL :: nat where "NL \<equiv> 10"
abbreviation CR :: nat where "CR \<equiv> 13"
abbreviation SPACE :: nat where "SPACE \<equiv> 32"
abbreviation HYPHEN :: nat where "HYPHEN \<equiv> 45"
abbreviation BACKTICK :: nat where "BACKTICK \<equiv> 96"

text \<open>The six box-drawing characters U+2502, U+2500, U+250C, U+2510, U+2514, U+2518.\<close>

abbreviation BOX_V :: nat where "BOX_V \<equiv> 9474"
abbreviation BOX_H :: nat where "BOX_H \<equiv> 9472"
abbreviation BOX_DR :: nat where "BOX_DR \<equiv> 9484"
abbreviation BOX_DL :: nat where "BOX_DL \<equiv> 9488"
abbreviation BOX_UR :: nat where "BOX_UR \<equiv> 9492"
abbreviation BOX_UL :: nat where "BOX_UL \<equiv> 9496"

text \<open>ASCII text written as an Isabelle string literal.\<close>

definition u :: "string \<Rightarrow> ustr" where
  "u s = map of_char s"

text \<open>
  \<open>str.isspace\<close> of one code point: the whitespace table of the Python runtime, which
  \<open>str.strip\<close> and \<open>str.lstrip\<close> use when called without argument.
\<close>

definition isspace :: "nat \<Rightarrow> bool" where
  "isspace c =
     ((9 \<le> c \<and> c \<le> 13) \<or> (28 \<le> c \<and> c \<le> 32) \<or> c = 133 \<or> c = 160 \<or> c = 5760 \<or>
      (8192 \<le> c \<and> c \<le> 8202) \<or> c = 8232 \<or> c = 8233 \<or> c = 8239 \<or> c = 8287 \<or>
      c = 12288)"

definition py_lstrip :: "ustr \<Rightarrow> ustr" where
  "py_lstrip s = dropWhile isspace s"

definition py_strip :: "ustr \<Rightarrow> ustr" where
  "py_strip s = rev (dropWhile isspace (rev (dropWhile isspace s)))"

text \<open>
  \<open>s.split(sep)\<close> for a separator that is not empty: the text is cut at the leftmost
  occurrences of \<open>sep\<close>, which do not overlap. (Python raises on an empty separator; the
  program only splits on three constant separators.)
\<close>

function py_split :: "'a list \<Rightarrow> 'a list \<Rightarrow> 'a list list" where
  "py_split sep [] = [[]]"
| "py_split sep (c # cs) =
     (if sep \<noteq> [] \<and> prefix sep (c # cs)
      then [] # py_split sep (drop (length sep) (c # cs))
      else (case py_split sep cs of [] \<Rightarrow> [[c]] | p # ps \<Rightarrow> (c # p) # ps))"
  by pat_completeness auto
termination
  by (relation "measure (\<lambda>(sep, s). length s)") (auto simp: Suc_le_eq)

text \<open>\<open>sep.join(xs)\<close>.\<close>

fun py_join :: "'a list \<Rightarrow> 'a list list \<Rightarrow> 'a list" where
  "py_join sep [] = []"
| "py_join sep [x] = x"
| "py_join sep (x # y # ys) = x @ sep @ py_join sep (y # ys)"

text \<open>
  The slices \<open>s[:e]\<close> and \<open>s[e:]\<close> for an integer \<open>e\<close>: a negative bound counts from
  the end, and every bound is clamped to the string.
\<close>

definition slice_index :: "'a list \<Rightarrow> int \<Rightarrow> nat" where
  "slice_index s e = nat (if e < 0 then int (length s) + e else e)"

definition py_upto :: "'a list \<Rightarrow> int \<Rightarrow> 'a list" where
  "py_upto s e = take (slice_index s e) s"

definition py_from :: "'a list \<Rightarrow> int \<Rightarrow> 'a list" where
  "py_from s e = drop (slice_index s e) s"

section \<open>Errors\<close>

text \<open>
  The only exception the reflow function can meet is the \<open>ValueError\<close> of the
  \<open>textwrap\<close> library. A raise is the left summand; running a loop body over a list
  stops at the first raise.
\<close>

datatype error = ValueError

fun collect :: "('a \<Rightarrow> error + 'b) \<Rightarrow> 'a list \<Rightarrow> error + 'b list" where
  "collect f [] = Inr []"
| "collect f (x # xs) =
     (case f x of
        Inl e \<Rightarrow> Inl e
      | Inr y \<Rightarrow> (case collect f xs of Inl e \<Rightarrow> Inl e | Inr ys \<Rightarrow> Inr (y # ys)))"

section \<open>The library call \<open>textwrap.fill\<close>\<close>

text \<open>
  \<open>textwrap.fill(text, width, break_long_words=True, break_on_hyphens=True)\<close> of the
  Python standard library, with every other option at its default. The library is not part
  of the repository; it is modelled here, method by method, because the reflow function
  raises exactly where the library raises.
\<close>

text \<open>The library's own whitespace: the six characters of \<open>'\t\n\x0b\x0c\r '\<close>.\<close>

definition tw_whitespace :: "nat \<Rightarrow> bool" where
  "tw_whitespace c = (c = 9 \<or> c = 10 \<or> c = 11 \<or> c = 12 \<or> c = 13 \<or> c = 32)"

text \<open>\<open>str.expandtabs(tabsize)\<close>, with the column carried along.\<close>

fun expandtabs :: "nat \<Rightarrow> nat \<Rightarrow> ustr \<Rightarrow> ustr" where
  "expandtabs tabsize col [] = []"
| "expandtabs tabsize col (c # cs) =
     (if c = TAB then
        (if tabsize > 0
         then replicate (tabsize - col mod tabsize) SPACE
              @ expandtabs tabsize (col + (tabsize - col mod tabsize)) cs
         else expandtabs tabsize col cs)
      else c # expandtabs tabsize (if c = NL \<or> c = CR then 0 else col + 1) cs)"

definition munge_whitespace :: "ustr \<Rightarrow> ustr" where
  "munge_whitespace text = map (\<lambda>c. if tw_whitespace c then SPACE else c) (expandtabs 8 0 text)"

text \<open>
  The regular expression \<open>wordsep_re\<close> asks the Unicode database which code points are
  alphanumeric and which are decimal digits. The two tables are a parameter; \<open>ascii_db\<close>
  is the part of the tables below U+0080 (and says no elsewhere).
\<close>

record unicode_db =
  alnum :: "nat \<Rightarrow> bool"
  decimal :: "nat \<Rightarrow> bool"

definition ascii_db :: unicode_db where
  "ascii_db = \<lparr> alnum = (\<lambda>c. (48 \<le> c \<and> c \<le> 57) \<or> (65 \<le> c \<and> c \<le> 90) \<or> (97 \<le> c \<and> c \<le> 122)),
                decimal = (\<lambda>c. 48 \<le> c \<and> c \<le> 57) \<rparr>"

text \<open>The classes \<open>\w\<close>, \<open>[^\d\W]\<close> and \<open>[\w!"'&.,?]\<close> of the expression.\<close>

definition word_char :: "unicode_db \<Rightarrow> nat \<Rightarrow> bool" where
  "word_char U c = (alnum U c \<or> c = 95)"

definition letter :: "unicode_db \<Rightarrow> nat \<Rightarrow> bool" where
  "letter U c = (word_char U c \<and> \<not> decimal U c)"

definition word_punct :: "unicode_db \<Rightarrow> nat \<Rightarrow> bool" where
  "word_punct U c = (word_char U c \<or> c = 33 \<or> c = 34 \<or> c = 39 \<or> c = 38 \<or> c = 46 \<or> c = 44 \<or> c = 63)"

text \<open>
  \<open>-{2,}\w\<close> at the head of \<open>a\<close>: a run of two or more hyphens, then a word character.
\<close>

definition em_dash_ahead :: "unicode_db \<Rightarrow> ustr \<Rightarrow> bool" where
  "em_dash_ahead U a =
     (2 \<le> length (takeWhile (\<lambda>c. c = HYPHEN) a) \<and>
      (case dropWhile (\<lambda>c. c = HYPHEN) a of [] \<Rightarrow> False | x # _ \<Rightarrow> word_char U x))"

text \<open>
  \<open>(?<=wp)\<close>: the character just before the position is in \<open>[\w!"'&.,?]\<close>. The text
  before a position is kept reversed, nearest character first.
\<close>

definition after_word_punct :: "unicode_db \<Rightarrow> ustr \<Rightarrow> bool" where
  "after_word_punct U b = (case b of [] \<Rightarrow> False | b0 # _ \<Rightarrow> word_punct U b0)"

text \<open>
  The hyphen of a hyphenated word: \<open>-(?:(?<=lt{2}-)|(?<=lt-lt-))(?=lt -? lt)\<close>, with
  \<open>b\<close> the text before the hyphen (reversed) and \<open>a\<close> the text from the hyphen on.
\<close>

definition hyphen_break :: "unicode_db \<Rightarrow> ustr \<Rightarrow> ustr \<Rightarrow> bool" where
  "hyphen_break U b a =
     (case a of
        [] \<Rightarrow> False
      | h # a' \<Rightarrow>
          h = HYPHEN \<and>
          ((case b of b0 # b1 # _ \<Rightarrow> letter U b0 \<and> letter U b1 | _ \<Rightarrow> False) \<or>
           (case b of b0 # b1 # b2 # _ \<Rightarrow> letter U b0 \<and> b1 = HYPHEN \<and> letter U b2 | _ \<Rightarrow> False)) \<and>
          (case a' of
             x # y # r \<Rightarrow>
               letter U x \<and>
               ((y = HYPHEN \<and> (case r of [] \<Rightarrow> False | z # _ \<Rightarrow> letter U z)) \<or> letter U y)
           | _ \<Rightarrow> False))"

text \<open>
  The third alternative of the expression, a word: the lazy \<open>[^ws]+?\<close> has taken the
  characters now at the head of \<open>b\<close> and tries, after each one, the hyphen of a hyphenated
  word (which it takes too), the end of the word, and the start of an em-dash.
  The result is the number of further characters of \<open>a\<close> in the match.
\<close>

fun scan_word :: "unicode_db \<Rightarrow> ustr \<Rightarrow> ustr \<Rightarrow> nat" where
  "scan_word U b [] = 0"
| "scan_word U b (x # a') =
     (if hyphen_break U b (x # a') then 1
      else if tw_whitespace x then 0
      else if after_word_punct U b \<and> em_dash_ahead U (x # a') then 0
      else Suc (scan_word U (x # b) a'))"

text \<open>
  The length of the match of \<open>wordsep_re\<close> that starts at the head of the text: a run of
  whitespace, or an em-dash between words, or a word. One of the three always matches, and
  never the empty string.
\<close>

definition chunk_len :: "unicode_db \<Rightarrow> ustr \<Rightarrow> ustr \<Rightarrow> nat" where
  "chunk_len U b a =
     (case a of
        [] \<Rightarrow> 0
      | c # cs \<Rightarrow>
          if tw_whitespace c then length (takeWhile tw_whitespace (c # cs))
          else if after_word_punct U b \<and> em_dash_ahead U (c # cs)
          then length (takeWhile (\<lambda>x. x = HYPHEN) (c # cs))
          else Suc (scan_word U (c # b) cs))"

lemma chunk_len_pos: "0 < chunk_len U b (c # cs)"
  by (auto simp: chunk_len_def em_dash_ahead_def)

text \<open>
  \<open>wordsep_re.split(text)\<close> without the empty strings between adjacent matches: since a
  match starts at every position, the chunks are the successive matches.
\<close>

function wordsep_split :: "unicode_db \<Rightarrow> ustr \<Rightarrow> ustr \<Rightarrow> ustr list" where
  "wordsep_split U b [] = []"
| "wordsep_split U b (c # cs) =
     take (chunk_len U b (c # cs)) (c # cs)
     # wordsep_split U (rev (take (chunk_len U b (c # cs)) (c # cs)) @ b)
         (drop (chunk_len U b (c # cs)) (c # cs))"
  by pat_completeness auto
termination
proof (relation "measure (\<lambda>(U, b, a). length a)")
  show "wf (measure (\<lambda>(U, b, a). length a))" by simp
next
  fix U :: unicode_db and b :: ustr and c :: nat and cs :: ustr
  have "0 < chunk_len U b (c # cs)" by (rule chunk_len_pos)
  then show "((U, rev (take (chunk_len U b (c # cs)) (c # cs)) @ b,
               drop (chunk_len U b (c # cs)) (c # cs)), (U, b, c # cs))
             \<in> measure (\<lambda>(U, b, a). length a)"
    by simp
qed

definition split_chunks :: "unicode_db \<Rightarrow> ustr \<Rightarrow> ustr list" where
  "split_chunks U text = filter (\<lambda>c. c \<noteq> []) (wordsep_split U [] (munge_whitespace text))"

text \<open>
  \<open>s.rfind(c, 0, e)\<close> for one character: the highest index below the bound that holds
  \<open>c\<close>, or \<open>-1\<close>.
\<close>

fun last_index :: "'a \<Rightarrow> 'a list \<Rightarrow> int" where
  "last_index c [] = - 1"
| "last_index c (x # xs) =
     (if 0 \<le> last_index c xs then last_index c xs + 1 else if x = c then 0 else - 1)"

definition rfind :: "'a \<Rightarrow> 'a list \<Rightarrow> int \<Rightarrow> int" where
  "rfind c s e = last_index c (py_upto s e)"

text \<open>
  \<open>_handle_long_word\<close>: the chunk at the head of the stack fits on no line. As much of
  it as the line has room for is put on the line, or less when that lets the line end
  after a hyphen that has something other than hyphens before it.
\<close>

definition handle_long_word :: "ustr \<Rightarrow> ustr list \<Rightarrow> ustr list \<Rightarrow> int \<Rightarrow> int \<Rightarrow> ustr list \<times> ustr list" where
  "handle_long_word chunk rest cur_line cur_len width =
     (let space_left = (if width < 1 then 1 else width - cur_len);
          hyphen = rfind HYPHEN chunk space_left;
          end = (if int (length chunk) > space_left \<and> hyphen > 0
                    \<and> list_ex (\<lambda>c. c \<noteq> HYPHEN) (py_upto chunk hyphen)
                 then hyphen + 1 else space_left)
      in (cur_line @ [py_upto chunk end], py_from chunk end # rest))"

text \<open>The inner loop of \<open>_wrap_chunks\<close>: chunks go onto the line while they fit.\<close>

fun fit :: "int \<Rightarrow> ustr list \<Rightarrow> int \<Rightarrow> ustr list \<Rightarrow> ustr list \<times> int \<times> ustr list" where
  "fit width cur_line cur_len [] = (cur_line, cur_len, [])"
| "fit width cur_line cur_len (c # cs) =
     (if cur_len + int (length c) \<le> width
      then fit width (cur_line @ [c]) (cur_len + int (length c)) cs
      else (cur_line, cur_len, c # cs))"

text \<open>
  One pass of the outer loop of \<open>_wrap_chunks\<close>, for a stack that is not empty: the
  chunks of the next line and the stack that is left. \<open>started\<close> says that a line has
  been emitted already.
\<close>

definition next_line :: "int \<Rightarrow> bool \<Rightarrow> ustr list \<Rightarrow> ustr list \<times> ustr list" where
  "next_line width started chunks =
     (let chunks1 = (if py_strip (hd chunks) = [] \<and> started then tl chunks else chunks);
          (cur_line, cur_len, chunks2) = fit width [] 0 chunks1;
          (cur_line2, chunks3) =
             (case chunks2 of
                [] \<Rightarrow> (cur_line, chunks2)
              | d # ds \<Rightarrow>
                  if int (length d) > width
                  then handle_long_word d ds cur_line cur_len width
                  else (cur_line, chunks2));
          cur_line3 = (if cur_line2 \<noteq> [] \<and> py_strip (last cur_line2) = []
                       then butlast cur_line2 else cur_line2)
      in (cur_line3, chunks3))"

text \<open>The size of the stack of chunks: the outer loop makes it smaller on every pass.\<close>

definition stack_size :: "ustr list \<Rightarrow> nat" where
  "stack_size chunks = sum_list (map (\<lambda>c. Suc (length c)) chunks)"

lemma fit_stack_size: "stack_size (snd (snd (fit w cl n cs))) \<le> stack_size cs"
proof (induction cs arbitrary: cl n)
  case Nil
  then show ?case by simp
next
  case (Cons c cs)
  have "stack_size (snd (snd (fit w (cl @ [c]) (n + int (length c)) cs))) \<le> stack_size cs"
    by (rule Cons.IH)
  then show ?case by (simp add: stack_size_def)
qed

lemma handle_long_word_le:
  "stack_size (snd (handle_long_word d ds cl n w)) \<le> stack_size (d # ds)"
  by (simp add: handle_long_word_def Let_def stack_size_def py_from_def)

lemma last_index_ge: "- 1 \<le> last_index c xs"
  by (induction xs) auto

lemma handle_long_word_less:
  assumes "0 < w" and "w < int (length d)"
  shows "stack_size (snd (handle_long_word d ds cl 0 w)) < stack_size (d # ds)"
proof -
  define e where "e = (if int (length d) > w \<and> rfind HYPHEN d w > 0
                    \<and> list_ex (\<lambda>c. c \<noteq> HYPHEN) (py_upto d (rfind HYPHEN d w))
                 then rfind HYPHEN d w + 1 else w)"
  have "0 < e" using assms by (auto simp: e_def)
  then have "0 < slice_index d e" by (simp add: slice_index_def)
  moreover have "0 < length d" using assms by auto
  ultimately have "length (py_from d e) < length d"
    by (simp add: py_from_def)
  moreover have "snd (handle_long_word d ds cl 0 w) = py_from d e # ds"
    using assms by (simp add: handle_long_word_def Let_def e_def)
  ultimately show ?thesis by (simp add: stack_size_def)
qed

lemma next_line_decreases:
  assumes "0 < w" and "chunks \<noteq> []"
  shows "stack_size (snd (next_line w started chunks)) < stack_size chunks"
proof -
  obtain c cs where chunks: "chunks = c # cs" using assms(2) by (cases chunks) auto
  define chunks1 where "chunks1 = (if py_strip (hd chunks) = [] \<and> started then tl chunks else chunks)"
  obtain cur_line cur_len chunks2 where f: "fit w [] 0 chunks1 = (cur_line, cur_len, chunks2)"
    by (cases "fit w [] 0 chunks1") auto
  define r where "r = (case chunks2 of
                [] \<Rightarrow> (cur_line, chunks2)
              | d # ds \<Rightarrow>
                  if int (length d) > w
                  then handle_long_word d ds cur_line cur_len w
                  else (cur_line, chunks2))"
  have nl: "snd (next_line w started chunks) = snd r"
    by (simp add: next_line_def Let_def chunks1_def[symmetric] f r_def[symmetric] split: prod.splits)
  have le2: "stack_size chunks2 \<le> stack_size chunks1"
    using fit_stack_size[of w "[]" 0 chunks1] by (simp add: f)
  have le3: "stack_size (snd r) \<le> stack_size chunks2"
    using handle_long_word_le by (auto simp: r_def split: list.splits)
  show ?thesis
  proof (cases "chunks1 = chunks")
    case False
    then have "chunks1 = cs" by (auto simp: chunks1_def chunks split: if_splits)
    then have "stack_size chunks1 < stack_size chunks" by (simp add: chunks stack_size_def)
    with le2 le3 nl show ?thesis by simp
  next
    case True
    show ?thesis
    proof (cases "int (length c) \<le> w")
      case True
      with \<open>chunks1 = chunks\<close> f have "stack_size chunks2 \<le> stack_size cs"
        using fit_stack_size[of w "[c]" "int (length c)" cs] by (simp add: chunks)
      then have "stack_size chunks2 < stack_size chunks" by (simp add: chunks stack_size_def)
      with le3 nl show ?thesis by simp
    next
      case False
      with \<open>chunks1 = chunks\<close> f have "cur_line = []" "cur_len = 0" "chunks2 = c # cs"
        by (auto simp: chunks)
      then have "snd r = snd (handle_long_word c cs [] 0 w)"
        using False by (simp add: r_def)
      then show ?thesis
        using handle_long_word_less[of w c cs "[]"] False assms(1) nl by (simp add: chunks)
    qed
  qed
qed

text \<open>
  \<open>_wrap_chunks\<close>: the check of the width, which raises, and the outer loop. The width does
  not change, so checking it on every pass is checking it once before the loop.
\<close>

function wrap_loop :: "int \<Rightarrow> ustr list \<Rightarrow> ustr list \<Rightarrow> error + ustr list" where
  "wrap_loop width lines chunks =
     (if width \<le> 0 then Inl ValueError
      else if chunks = [] then Inr lines
      else wrap_loop width
             (if fst (next_line width (lines \<noteq> []) chunks) \<noteq> []
              then lines @ [concat (fst (next_line width (lines \<noteq> []) chunks))] else lines)
             (snd (next_line width (lines \<noteq> []) chunks)))"
  by pat_completeness auto
termination
  by (relation "measure (\<lambda>(w, ls, chunks). stack_size chunks)")
     (auto simp: next_line_decreases)

text \<open>\<open>fill\<close>: the chunks of the munged text, wrapped, and the lines joined.\<close>

definition textwrap_fill :: "unicode_db \<Rightarrow> ustr \<Rightarrow> int \<Rightarrow> error + ustr" where
  "textwrap_fill U text width =
     (case wrap_loop width [] (split_chunks U text) of
        Inl e \<Rightarrow> Inl e
      | Inr lines \<Rightarrow> Inr (py_join [NL] lines))"


section \<open>The reflow function: \<open>wrap_text_for_terminal\<close>\<close>

text \<open>
  The function calls \<open>textwrap.fill\<close> in three places, always with the same options. The
  call is the parameter \<open>fill\<close> of the model: what does not depend on the library is proved
  for every \<open>fill\<close>, and the rest for \<open>textwrap_fill\<close>.
\<close>

type_synonym fill_fn = "ustr \<Rightarrow> int \<Rightarrow> error + ustr"

text \<open>Lines 37 to 40: the width when the argument is \<open>None\<close>, from the terminal size.\<close>

definition resolve_width :: "int \<times> int \<Rightarrow> int option \<Rightarrow> int" where
  "resolve_width terminal_size width =
     (case width of
        None \<Rightarrow> (case terminal_size of (terminal_width, _) \<Rightarrow> max 50 (terminal_width - 15))
      | Some w \<Rightarrow> w)"

text \<open>Line 43: the test for a table.\<close>

definition has_box :: "ustr \<Rightarrow> bool" where
  "has_box text =
     (BOX_V \<in> set text \<or> BOX_H \<in> set text \<or> BOX_DR \<in> set text \<or>
      BOX_DL \<in> set text \<or> BOX_UR \<in> set text \<or> BOX_UL \<in> set text)"

text \<open>
  Lines 55 to 65: the loop over the cells of a table line. The result is the list of the
  lines the loop appends to \<open>wrapped_lines\<close>; \<open>i < len(parts) - 1\<close> says that a part is
  not the last one.
\<close>

fun reassemble :: "int \<Rightarrow> ustr \<Rightarrow> ustr list \<Rightarrow> ustr list" where
  "reassemble width current_line [] = (if current_line \<noteq> [] then [current_line] else [])"
| "reassemble width current_line (part # rest) =
     (if int (length (current_line @ part @ (if rest \<noteq> [] then [BOX_V] else []))) \<le> width
      then reassemble width (current_line @ part @ (if rest \<noteq> [] then [BOX_V] else [])) rest
      else (if current_line \<noteq> [] then [current_line] else [])
           @ reassemble width (part @ (if rest \<noteq> [] then [BOX_V] else [])) rest)"

text \<open>Lines 48 to 71: what one line of a table text appends to \<open>wrapped_lines\<close>.\<close>

definition wrap_table_line :: "fill_fn \<Rightarrow> int \<Rightarrow> ustr \<Rightarrow> error + ustr list" where
  "wrap_table_line fill width line =
     (if int (length line) \<le> width then Inr [line]
      else if BOX_V \<in> set line then Inr (reassemble width [] (py_split [BOX_V] line))
      else (case fill line width of Inl e \<Rightarrow> Inl e | Inr wrapped \<Rightarrow> Inr [wrapped]))"

text \<open>Lines 45 to 72: the table path.\<close>

definition table_path :: "fill_fn \<Rightarrow> int \<Rightarrow> ustr \<Rightarrow> error + ustr" where
  "table_path fill width text =
     (case collect (wrap_table_line fill width) (py_split [NL] text) of
        Inl e \<Rightarrow> Inl e
      | Inr wrapped_lines \<Rightarrow> Inr (py_join [NL] (concat wrapped_lines)))"

text \<open>Lines 80 to 82: the test for a code paragraph.\<close>

definition is_code_paragraph :: "ustr \<Rightarrow> bool" where
  "is_code_paragraph paragraph =
     (prefix [BACKTICK, BACKTICK, BACKTICK] (py_strip paragraph) \<or>
      prefix [SPACE, SPACE, SPACE, SPACE] (py_strip paragraph) \<or>
      prefix [TAB] (py_strip paragraph))"

text \<open>Lines 87 to 110: what one line of a code paragraph appends to \<open>wrapped_lines\<close>.\<close>

definition wrap_code_line :: "fill_fn \<Rightarrow> int \<Rightarrow> ustr \<Rightarrow> error + ustr list" where
  "wrap_code_line fill width line =
     (if int (length line) \<le> width then Inr [line]
      else
        let indent = length line - length (py_lstrip line);
            indent_str = take indent line;
            content = drop indent line;
            content_width = width - int indent
        in if content_width > 20
           then (case fill content content_width of
                   Inl e \<Rightarrow> Inl e
                 | Inr wrapped \<Rightarrow>
                     Inr (map (\<lambda>wrapped_line. indent_str @ wrapped_line) (py_split [NL] wrapped)))
           else Inr ([py_upto line width]
                     @ (if int (length line) > width then [py_from line width] else [])))"

text \<open>Lines 117 to 126: what one line of a prose paragraph appends to \<open>wrapped_lines\<close>.\<close>

definition wrap_prose_line :: "fill_fn \<Rightarrow> int \<Rightarrow> ustr \<Rightarrow> error + ustr list" where
  "wrap_prose_line fill width line =
     (if length (py_strip line) = 0 then Inr [[]]
      else if int (length line) \<le> width then Inr [line]
      else (case fill line width of Inl e \<Rightarrow> Inl e | Inr wrapped \<Rightarrow> Inr [wrapped]))"

text \<open>Lines 78 to 127: one paragraph.\<close>

definition wrap_paragraph :: "fill_fn \<Rightarrow> int \<Rightarrow> ustr \<Rightarrow> error + ustr" where
  "wrap_paragraph fill width paragraph =
     (case collect (if is_code_paragraph paragraph
                    then wrap_code_line fill width else wrap_prose_line fill width)
             (py_split [NL] paragraph) of
        Inl e \<Rightarrow> Inl e
      | Inr wrapped_lines \<Rightarrow> Inr (py_join [NL] (concat wrapped_lines)))"

text \<open>Lines 75 to 129: the paragraph path.\<close>

definition paragraph_path :: "fill_fn \<Rightarrow> int \<Rightarrow> ustr \<Rightarrow> error + ustr" where
  "paragraph_path fill width text =
     (case collect (wrap_paragraph fill width) (py_split [NL, NL] text) of
        Inl e \<Rightarrow> Inl e
      | Inr wrapped_paragraphs \<Rightarrow> Inr (py_join [NL, NL] wrapped_paragraphs))"

text \<open>
  The function. \<open>terminal_size\<close> is what \<open>get_terminal_size()\<close> returns, columns first;
  the function asks for it only when the width is \<open>None\<close>.
\<close>

definition wrap_text_for_terminal :: "fill_fn \<Rightarrow> int \<times> int \<Rightarrow> ustr \<Rightarrow> int option \<Rightarrow> error + ustr" where
  "wrap_text_for_terminal fill terminal_size text width =
     (if has_box text
      then table_path fill (resolve_width terminal_size width) text
      else paragraph_path fill (resolve_width terminal_size width) text)"

text \<open>The line of the table scenario: \<open>a | bbbbbbbbbb | c\<close>, with U+2502 for the bar.\<close>

definition table_scenario :: ustr where
  "table_scenario = u ''a '' @ [BOX_V] @ u '' bbbbbbbbbb '' @ [BOX_V] @ u '' c''"

text \<open>The cell fragments of a table line, each with the separator that follows it.\<close>

fun fragments :: "ustr list \<Rightarrow> ustr list" where
  "fragments [] = []"
| "fragments (part # rest) = (part @ (if rest \<noteq> [] then [BOX_V] else [])) # fragments rest"

definition two_paragraphs :: ustr where
  "two_paragraphs = u ''one two'' @ [NL, NL] @ u ''three''"

definition blank_line_text :: ustr where
  "blank_line_text = u ''a'' @ [NL, SPACE, NL] @ u ''b''"

definition stray_bar_text :: ustr where
  "stray_bar_text = u ''see a '' @ [BOX_V] @ u '' b'' @ [NL, SPACE, NL] @ u ''end''"

definition no_bar_text :: ustr where
  "no_bar_text = u ''see a b'' @ [NL, SPACE, NL] @ u ''end''"

definition two_space_paragraph :: ustr where
  "two_space_paragraph = u ''  aaaa bbbb cccc dddd eeee ffff gggg hhhh iiii''"

definition fenced_paragraph :: ustr where
  "fenced_paragraph = u ''```'' @ [NL] @ u ''    aaaa bbbb cccc dddd eeee ffff gggg hhhh''"

definition indented_line :: ustr where
  "indented_line = u ''    aaaa bbbb cccc dddd eeee ffff''"

definition deep_code_text :: ustr where
  "deep_code_text = u ''```'' @ [NL] @ indented_line"

definition long_code_line :: ustr where
  "long_code_line = u ''    '' @ concat (replicate 28 (u ''abcdef ''))"







section \<open>Chunks and lines of the word fill\<close>

text \<open>
  The predicates in which the lines that \<open>textwrap.fill\<close> returns are described.
\<close>

text \<open>
  The chunks of a text whose whitespace is all of the library's kind: a chunk is a run of
  spaces or a word with no whitespace in it, and two runs of spaces are never neighbours.
\<close>

definition spaces :: "ustr \<Rightarrow> bool" where
  "spaces c = (c \<noteq> [] \<and> list_all (\<lambda>x. x = SPACE) c)"

definition solid :: "ustr \<Rightarrow> bool" where
  "solid c = (c \<noteq> [] \<and> list_all (\<lambda>x. \<not> isspace x) c)"

fun chunks_ok :: "ustr list \<Rightarrow> bool" where
  "chunks_ok [] = True"
| "chunks_ok [c] = (spaces c \<or> solid c)"
| "chunks_ok (c # d # r) = ((solid c \<or> (spaces c \<and> solid d)) \<and> chunks_ok (d # r))"

definition plain :: "ustr \<Rightarrow> bool" where
  "plain t = list_all (\<lambda>x. x = SPACE \<or> \<not> isspace x) t"

text \<open>A line of output that is worth keeping: no whitespace but spaces, and not only spaces.\<close>

definition good_line :: "ustr \<Rightarrow> bool" where
  "good_line l = (plain l \<and> list_ex (\<lambda>x. \<not> isspace x) l)"

text \<open>The line before its trailing whitespace chunk is dropped, and the stack after it.\<close>

definition raw_line :: "int \<Rightarrow> ustr list \<Rightarrow> ustr list \<times> ustr list" where
  "raw_line w chunks1 =
     (case fit w [] 0 chunks1 of
        (cur_line, cur_len, chunks2) \<Rightarrow>
          (case chunks2 of
             [] \<Rightarrow> (cur_line, chunks2)
           | d # ds \<Rightarrow>
               if int (length d) > w
               then handle_long_word d ds cur_line cur_len w
               else (cur_line, chunks2)))"

text \<open>
  A text that a pass leaves alone whatever its paragraphs are: every line is within the
  width, and a whitespace-only line is empty.
\<close>

definition settled :: "int \<Rightarrow> ustr \<Rightarrow> bool" where
  "settled w s = list_all (\<lambda>l. int (length l) \<le> w \<and> (py_strip l = [] \<longrightarrow> l = [])) (py_split [NL] s)"

section \<open>Splitting and joining\<close>

lemma py_split_not_Nil: "py_split sep s \<noteq> []"
  by (induction sep s rule: py_split.induct) (auto split: list.splits)

lemma py_join_Cons: "py_join sep (x # xs) = x @ (if xs = [] then [] else sep @ py_join sep xs)"
  by (cases xs) auto

lemma py_join_split: "sep \<noteq> [] \<Longrightarrow> py_join sep (py_split sep s) = s"
proof (induction sep s rule: py_split.induct)
  case (1 sep)
  then show ?case by simp
next
  case (2 sep c cs)
  show ?case
  proof (cases "prefix sep (c # cs)")
    case True
    then have "sep @ drop (length sep) (c # cs) = c # cs"
      by (metis append_eq_conv_conj prefix_def)
    with True 2 show ?thesis
      by (simp add: py_join_Cons py_split_not_Nil)
  next
    case False
    obtain p ps where sp: "py_split sep cs = p # ps"
      using py_split_not_Nil[of sep cs] by (cases "py_split sep cs") auto
    have "py_join sep (p # ps) = cs" using 2 False sp by simp
    then have "py_join sep ((c # p) # ps) = c # cs"
      by (simp add: py_join_Cons)
    with False sp show ?thesis by simp
  qed
qed

lemma py_split_char_append:
  "py_split [c] (a @ c # b) = py_split [c] a @ py_split [c] b"
proof (induction a)
  case Nil
  then show ?case by simp
next
  case (Cons x a)
  obtain p ps where sp: "py_split [c] a = p # ps"
    using py_split_not_Nil[of "[c]" a] by (cases "py_split [c] a") auto
  show ?case using Cons sp by (cases "x = c") auto
qed

lemma collect_unchanged:
  "(\<And>x. x \<in> set xs \<Longrightarrow> f x = Inr [x]) \<Longrightarrow> collect f xs = Inr (map (\<lambda>x. [x]) xs)"
  by (induction xs) auto

lemma collect_same:
  "(\<And>x. x \<in> set xs \<Longrightarrow> f x = Inr x) \<Longrightarrow> collect f xs = Inr xs"
  by (induction xs) auto

lemma concat_singletons: "concat (map (\<lambda>x. [x]) xs) = xs"
  by (induction xs) auto

lemma reassemble_concat:
  "concat (reassemble width current_line parts) = current_line @ py_join [BOX_V] parts"
  by (induction parts arbitrary: current_line) (auto simp: py_join_Cons)

lemma reassemble_lines:
  "l \<in> set (reassemble width current_line parts) \<Longrightarrow>
   (l = current_line \<and> current_line \<noteq> []) \<or> int (length l) \<le> width \<or> l \<in> set (fragments parts)"
proof (induction parts arbitrary: current_line)
  case Nil
  then show ?case by (simp split: if_splits)
next
  case (Cons part rest)
  define piece where "piece = part @ (if rest \<noteq> [] then [BOX_V] else [])"
  show ?case
  proof (cases "int (length (current_line @ piece)) \<le> width")
    case True
    with Cons.prems have "l \<in> set (reassemble width (current_line @ piece) rest)"
      by (simp add: piece_def)
    from Cons.IH[OF this] True show ?thesis by auto
  next
    case False
    with Cons.prems have "(l = current_line \<and> current_line \<noteq> []) \<or> l \<in> set (reassemble width piece rest)"
      by (auto simp: piece_def split: if_splits)
    then show ?thesis
    proof
      assume "l = current_line \<and> current_line \<noteq> []" then show ?thesis by simp
    next
      assume "l \<in> set (reassemble width piece rest)"
      from Cons.IH[OF this] show ?thesis by (auto simp: piece_def)
    qed
  qed
qed

lemma py_split_join_blank:
  "py_split [c] (py_join [c, c] (p # q # qs))
     = py_split [c] p @ [[]] @ py_split [c] (py_join [c, c] (q # qs))"
proof -
  have "py_join [c, c] (p # q # qs) = p @ c # ([] @ c # py_join [c, c] (q # qs))"
    by simp
  then show ?thesis
    by (simp only: py_split_char_append) simp
qed

lemma lines_of_joined_paragraphs:
  "p \<in> set ps \<Longrightarrow> set (py_split [c] p) \<subseteq> set (py_split [c] (py_join [c, c] ps))"
proof (induction ps)
  case Nil
  then show ?case by simp
next
  case (Cons x ys)
  show ?case
  proof (cases ys)
    case Nil
    with Cons.prems show ?thesis by simp
  next
    case (Cons y zs)
    have eq: "py_split [c] (py_join [c, c] (x # ys))
        = py_split [c] x @ [[]] @ py_split [c] (py_join [c, c] ys)"
      unfolding Cons by (rule py_split_join_blank)
    show ?thesis
    proof (cases "p = x")
      case True
      then show ?thesis by (auto simp: eq)
    next
      case False
      with Cons.prems have "p \<in> set ys" by simp
      from Cons.IH[OF this] show ?thesis by (auto simp: eq)
    qed
  qed
qed

lemma lines_of_paragraph:
  assumes "p \<in> set (py_split [NL, NL] text)"
  shows "set (py_split [NL] p) \<subseteq> set (py_split [NL] text)"
proof -
  have "py_join [NL, NL] (py_split [NL, NL] text) = text" by (simp add: py_join_split)
  with lines_of_joined_paragraphs[OF assms, of NL] show ?thesis by simp
qed

lemma table_path_unchanged:
  assumes "\<forall>l \<in> set (py_split [NL] text). int (length l) \<le> width"
  shows "table_path fill width text = Inr text"
proof -
  have "collect (wrap_table_line fill width) (py_split [NL] text)
          = Inr (map (\<lambda>x. [x]) (py_split [NL] text))"
    using assms by (intro collect_unchanged) (simp add: wrap_table_line_def)
  then show ?thesis by (simp add: table_path_def concat_singletons py_join_split)
qed

lemma wrap_paragraph_unchanged:
  assumes "\<forall>l \<in> set (py_split [NL] p). int (length l) \<le> width"
    and "is_code_paragraph p \<or> (\<forall>l \<in> set (py_split [NL] p). py_strip l = [] \<longrightarrow> l = [])"
  shows "wrap_paragraph fill width p = Inr p"
proof -
  have "collect (if is_code_paragraph p then wrap_code_line fill width else wrap_prose_line fill width)
          (py_split [NL] p) = Inr (map (\<lambda>x. [x]) (py_split [NL] p))"
    using assms by (intro collect_unchanged) (auto simp: wrap_code_line_def wrap_prose_line_def)
  then show ?thesis by (simp add: wrap_paragraph_def concat_singletons py_join_split)
qed

declare wrap_loop.simps [simp del]

lemma wrap_loop_raises: "width \<le> 0 \<Longrightarrow> wrap_loop width lines chunks = Inl ValueError"
  by (subst wrap_loop.simps) simp

lemma textwrap_fill_raises: "width \<le> 0 \<Longrightarrow> textwrap_fill U text width = Inl ValueError"
  by (simp add: textwrap_fill_def wrap_loop_raises)

lemma wrap_loop_returns: "0 < width \<Longrightarrow> \<exists>ls. wrap_loop width lines chunks = Inr ls"
proof (induction width lines chunks rule: wrap_loop.induct)
  case (1 width lines chunks)
  show ?case
  proof (cases "chunks = []")
    case True
    with 1 show ?thesis by (subst wrap_loop.simps) simp
  next
    case False
    with 1 show ?thesis by (subst wrap_loop.simps) simp
  qed
qed

lemma textwrap_fill_returns: "0 < width \<Longrightarrow> \<exists>out. textwrap_fill U text width = Inr out"
  using wrap_loop_returns[of width "[]" "split_chunks U text"]
  by (auto simp: textwrap_fill_def)

lemma collect_returns:
  "(\<And>x. x \<in> set xs \<Longrightarrow> \<exists>y. f x = Inr y) \<Longrightarrow> \<exists>ys. collect f xs = Inr ys"
proof (induction xs)
  case Nil
  then show ?case by simp
next
  case (Cons x xs)
  obtain y where "f x = Inr y" using Cons.prems by auto
  moreover obtain ys where "collect f xs = Inr ys" using Cons by auto
  ultimately show ?case by simp
qed

lemma fit_length:
  assumes "fit w cl n cs = (cl', n', cs')" and "n = int (length (concat cl))" and "n \<le> w"
  shows "n' = int (length (concat cl')) \<and> n' \<le> w"
  using assms
proof (induction cs arbitrary: cl n)
  case Nil
  then show ?case by auto
next
  case (Cons c cs)
  show ?case
  proof (cases "n + int (length c) \<le> w")
    case True
    with Cons.prems have "fit w (cl @ [c]) (n + int (length c)) cs = (cl', n', cs')" by simp
    from Cons.IH[OF this] Cons.prems True show ?thesis by simp
  next
    case False
    with Cons.prems show ?thesis by auto
  qed
qed

lemma last_index_less: "last_index c xs < int (length xs)"
  by (induction xs) auto

lemma py_upto_length: "0 \<le> e \<Longrightarrow> int (length (py_upto s e)) \<le> e"
  by (simp add: py_upto_def slice_index_def)

lemma handle_long_word_length:
  assumes "0 < w" and "n = int (length (concat cl))" and "n \<le> w"
  shows "int (length (concat (fst (handle_long_word d ds cl n w)))) \<le> w"
proof -
  define space_left where "space_left = w - n"
  define hyphen where "hyphen = rfind HYPHEN d space_left"
  define e where "e = (if int (length d) > space_left \<and> hyphen > 0
                    \<and> list_ex (\<lambda>c. c \<noteq> HYPHEN) (py_upto d hyphen)
                 then hyphen + 1 else space_left)"
  have sl: "0 \<le> space_left" using assms by (simp add: space_left_def)
  have "hyphen < int (length (py_upto d space_left))"
    unfolding hyphen_def rfind_def by (rule last_index_less)
  also have "\<dots> \<le> space_left" using sl by (rule py_upto_length)
  finally have "hyphen + 1 \<le> space_left" by simp
  then have e: "e \<le> space_left" and e0: "0 \<le> e" using sl by (auto simp: e_def)
  have "fst (handle_long_word d ds cl n w) = cl @ [py_upto d e]"
    using assms(1) by (simp add: handle_long_word_def Let_def e_def hyphen_def space_left_def)
  moreover have "int (length (py_upto d e)) \<le> space_left"
    using py_upto_length[OF e0, of d] e by simp
  ultimately show ?thesis using assms by (simp add: space_left_def)
qed

lemma concat_butlast_length: "length (concat (butlast xs)) \<le> length (concat xs)"
  by (induction xs) auto

lemma next_line_length:
  assumes "0 < w"
  shows "int (length (concat (fst (next_line w started chunks)))) \<le> w"
proof -
  define chunks1 where "chunks1 = (if py_strip (hd chunks) = [] \<and> started then tl chunks else chunks)"
  obtain cur_line cur_len chunks2 where f: "fit w [] 0 chunks1 = (cur_line, cur_len, chunks2)"
    by (cases "fit w [] 0 chunks1") auto
  from fit_length[OF f] assms have len: "cur_len = int (length (concat cur_line))" "cur_len \<le> w"
    by auto
  define r where "r = (case chunks2 of
                [] \<Rightarrow> (cur_line, chunks2)
              | d # ds \<Rightarrow>
                  if int (length d) > w
                  then handle_long_word d ds cur_line cur_len w
                  else (cur_line, chunks2))"
  have r: "int (length (concat (fst r))) \<le> w"
    using len handle_long_word_length[OF assms len] by (auto simp: r_def split: list.splits)
  have "fst (next_line w started chunks)
        = (if fst r \<noteq> [] \<and> py_strip (last (fst r)) = [] then butlast (fst r) else fst r)"
    by (simp add: next_line_def Let_def chunks1_def[symmetric] f r_def[symmetric] split: prod.splits)
  then show ?thesis
    using r concat_butlast_length[of "fst r"] by auto
qed

lemma wrap_loop_lines:
  assumes "0 < width" and "\<forall>l \<in> set lines. int (length l) \<le> width"
    and "wrap_loop width lines chunks = Inr ls"
  shows "\<forall>l \<in> set ls. int (length l) \<le> width"
  using assms
proof (induction width lines chunks rule: wrap_loop.induct)
  case (1 width lines chunks)
  show ?case
  proof (cases "chunks = []")
    case True
    with 1 show ?thesis by (subst (asm) (2) wrap_loop.simps) simp
  next
    case False
    define nl where "nl = next_line width (lines \<noteq> []) chunks"
    define lines' where "lines' = (if fst nl \<noteq> [] then lines @ [concat (fst nl)] else lines)"
    have step: "wrap_loop width lines chunks = wrap_loop width lines' (snd nl)"
      using False "1.prems"(1) by (subst wrap_loop.simps) (simp add: nl_def lines'_def)
    have fits: "\<forall>l \<in> set lines'. int (length l) \<le> width"
      using "1.prems"(1,2) next_line_length[of width "lines \<noteq> []" chunks]
      by (auto simp: lines'_def nl_def)
    have rest: "wrap_loop width lines' (snd nl) = Inr ls" using step "1.prems"(3) by simp
    have "\<not> width \<le> 0" using "1.prems"(1) by simp
    note IH = "1.IH"[OF this False "1.prems"(1), folded nl_def, folded lines'_def]
    from fits rest show ?thesis by (rule IH)
  qed
qed

lemma py_split_piece_length: "x \<in> set (py_split sep s) \<Longrightarrow> length x \<le> length s"
proof (induction sep s arbitrary: x rule: py_split.induct)
  case (1 sep)
  then show ?case by simp
next
  case (2 sep c cs)
  show ?case
  proof (cases "sep \<noteq> [] \<and> prefix sep (c # cs)")
    case True
    with 2 show ?thesis by (fastforce simp: le_diff_conv)
  next
    case False
    obtain p ps where sp: "py_split sep cs = p # ps"
      using py_split_not_Nil[of sep cs] by (cases "py_split sep cs") auto
    with False "2.prems" have "x = c # p \<or> x \<in> set ps" by auto
    then show ?thesis
      using "2.IH"(2)[OF False, of p] "2.IH"(2)[OF False, of x] sp by auto
  qed
qed

lemma lines_of_joined_lines:
  assumes "\<forall>l \<in> set ls. length l \<le> n"
  shows "\<forall>x \<in> set (py_split [c] (py_join [c] ls)). length x \<le> n"
  using assms
proof (induction ls)
  case Nil
  then show ?case by simp
next
  case (Cons l ls)
  show ?case
  proof (cases ls)
    case Nil
    with Cons.prems show ?thesis using py_split_piece_length[of _ "[c]" l] by fastforce
  next
    case (Cons m ms)
    have "py_join [c] (l # ls) = l @ c # py_join [c] ls" by (simp add: Cons)
    then have "py_split [c] (py_join [c] (l # ls)) = py_split [c] l @ py_split [c] (py_join [c] ls)"
      by (simp only: py_split_char_append)
    then show ?thesis
      using Cons.prems Cons.IH py_split_piece_length[of _ "[c]" l] by fastforce
  qed
qed

lemma textwrap_fill_lines:
  assumes "0 < width" and "textwrap_fill U text width = Inr wrapped"
  shows "\<forall>l \<in> set (py_split [NL] wrapped). int (length l) \<le> width"
proof -
  obtain ls where ls: "wrap_loop width [] (split_chunks U text) = Inr ls"
    and w: "wrapped = py_join [NL] ls"
    using assms(2) by (auto simp: textwrap_fill_def split: sum.splits)
  have "\<forall>l \<in> set ls. int (length l) \<le> width"
    using wrap_loop_lines[OF assms(1) _ ls] by simp
  then have "\<forall>l \<in> set ls. length l \<le> nat width" by auto
  from lines_of_joined_lines[OF this, of NL] show ?thesis
    using w assms(1) by (simp add: le_nat_iff)
qed

lemma strip_head: "py_strip s \<noteq> [] \<Longrightarrow> \<not> isspace (hd (py_strip s))"
proof -
  assume ne: "py_strip s \<noteq> []"
  define t where "t = dropWhile isspace s"
  have "suffix (dropWhile isspace (rev t)) (rev t)" by (rule suffix_dropWhile)
  then have "prefix (py_strip s) t"
    by (simp add: py_strip_def t_def suffix_to_prefix)
  then obtain r where t: "t = py_strip s @ r" by (auto simp: prefix_def)
  with ne have "t \<noteq> []" and "hd (py_strip s) = hd t" by auto
  moreover have "\<not> isspace (hd t)" using \<open>t \<noteq> []\<close> unfolding t_def by (rule hd_dropWhile)
  ultimately show ?thesis by simp
qed

lemma strip_no_space_prefix:
  "isspace c \<Longrightarrow> \<not> prefix (c # cs) (py_strip s)"
  using strip_head[of s] by (auto simp: prefix_def)

lemma is_code_paragraph_fence:
  "is_code_paragraph p = prefix [BACKTICK, BACKTICK, BACKTICK] (py_strip p)"
  by (simp add: is_code_paragraph_def strip_no_space_prefix isspace_def)

lemma indent_length: "length line - length (py_lstrip line) = length (takeWhile isspace line)"
proof -
  have "length line = length (takeWhile isspace line) + length (dropWhile isspace line)"
    by (metis length_append takeWhile_dropWhile_id)
  then show ?thesis by (simp add: py_lstrip_def)
qed

lemma indent_take: "take (length (takeWhile isspace line)) line = takeWhile isspace line"
  by (simp add: takeWhile_eq_take[symmetric])

lemma indent_drop: "drop (length (takeWhile isspace line)) line = py_lstrip line"
  by (simp add: py_lstrip_def dropWhile_eq_drop[symmetric])

lemma wrap_code_line_long:
  assumes "width < int (length line)"
  shows "wrap_code_line fill width line =
     (if 20 < width - int (length (takeWhile isspace line))
      then (case fill (py_lstrip line) (width - int (length (takeWhile isspace line))) of
              Inl e \<Rightarrow> Inl e
            | Inr wrapped \<Rightarrow> Inr (map (\<lambda>l. takeWhile isspace line @ l) (py_split [NL] wrapped)))
      else Inr [py_upto line width, py_from line width])"
  using assms
  unfolding wrap_code_line_def Let_def indent_length indent_take indent_drop
  by simp

lemma table_path_returns:
  assumes "0 < width"
  shows "\<exists>out. table_path (textwrap_fill U) width text = Inr out"
proof -
  have "\<exists>ys. collect (wrap_table_line (textwrap_fill U) width) (py_split [NL] text) = Inr ys"
  proof (rule collect_returns)
    fix line
    show "\<exists>y. wrap_table_line (textwrap_fill U) width line = Inr y"
      using textwrap_fill_returns[OF assms, of U line]
      by (auto simp: wrap_table_line_def)
  qed
  then show ?thesis by (auto simp: table_path_def)
qed

lemma wrap_paragraph_returns:
  assumes "0 < width"
  shows "\<exists>out. wrap_paragraph (textwrap_fill U) width p = Inr out"
proof -
  have "\<exists>ys. collect (if is_code_paragraph p then wrap_code_line (textwrap_fill U) width
                       else wrap_prose_line (textwrap_fill U) width) (py_split [NL] p) = Inr ys"
  proof (rule collect_returns)
    fix line
    have "\<exists>y. wrap_prose_line (textwrap_fill U) width line = Inr y"
      using textwrap_fill_returns[OF assms, of U line] by (auto simp: wrap_prose_line_def)
    moreover have "\<exists>y. wrap_code_line (textwrap_fill U) width line = Inr y"
    proof (cases "20 < width - int (length line - length (py_lstrip line))")
      case True
      then have "0 < width - int (length line - length (py_lstrip line))" by simp
      from textwrap_fill_returns[OF this, of U "drop (length line - length (py_lstrip line)) line"]
      show ?thesis using True by (auto simp: wrap_code_line_def Let_def)
    next
      case False
      then show ?thesis by (simp add: wrap_code_line_def Let_def)
    qed
    ultimately show "\<exists>y. (if is_code_paragraph p then wrap_code_line (textwrap_fill U) width
                       else wrap_prose_line (textwrap_fill U) width) line = Inr y"
      by simp
  qed
  then show ?thesis by (auto simp: wrap_paragraph_def)
qed

lemma paragraph_path_returns:
  assumes "0 < width"
  shows "\<exists>out. paragraph_path (textwrap_fill U) width text = Inr out"
proof -
  have "\<exists>ys. collect (wrap_paragraph (textwrap_fill U) width) (py_split [NL, NL] text) = Inr ys"
    by (rule collect_returns) (rule wrap_paragraph_returns[OF assms])
  then show ?thesis by (auto simp: paragraph_path_def)
qed

lemma unchanged_when_fitting:
  assumes "\<forall>l \<in> set (py_split [NL] text). int (length l) \<le> width"
    and "has_box text \<or>
         (\<forall>p \<in> set (py_split [NL, NL] text).
            is_code_paragraph p \<or> (\<forall>l \<in> set (py_split [NL] p). py_strip l = [] \<longrightarrow> l = []))"
  shows "wrap_text_for_terminal fill terminal_size text (Some width) = Inr text"
proof (cases "has_box text")
  case True
  then show ?thesis
    using table_path_unchanged[OF assms(1)]
    by (simp add: wrap_text_for_terminal_def resolve_width_def)
next
  case False
  have "collect (wrap_paragraph fill width) (py_split [NL, NL] text) = Inr (py_split [NL, NL] text)"
  proof (rule collect_same)
    fix p assume p: "p \<in> set (py_split [NL, NL] text)"
    have "\<forall>l \<in> set (py_split [NL] p). int (length l) \<le> width"
      using assms(1) lines_of_paragraph[OF p] by blast
    moreover have "is_code_paragraph p \<or> (\<forall>l \<in> set (py_split [NL] p). py_strip l = [] \<longrightarrow> l = [])"
      using assms(2) False p by blast
    ultimately show "wrap_paragraph fill width p = Inr p"
      by (rule wrap_paragraph_unchanged)
  qed
  with False show ?thesis
    by (simp add: wrap_text_for_terminal_def resolve_width_def paragraph_path_def py_join_split)
qed

section \<open>The lines of the word fill\<close>

text \<open>
  When the whitespace of a text is all of the library's kind and the text begins with a
  character that is not whitespace, no line that \<open>textwrap.fill\<close> returns is made of
  whitespace only. With the bound on the length of the lines, the result of a pass over such
  lines is a text that a second pass leaves alone.
\<close>

lemma tw_whitespace_isspace: "tw_whitespace c \<Longrightarrow> isspace c"
  by (auto simp: tw_whitespace_def isspace_def)

lemma isspace_SPACE: "isspace SPACE"
  by (simp add: isspace_def)

lemma plain_space: "plain t \<Longrightarrow> x \<in> set t \<Longrightarrow> tw_whitespace x \<Longrightarrow> x = SPACE"
  using tw_whitespace_isspace[of x] by (auto simp: plain_def list_all_iff)

lemma expandtabs_set: "set (expandtabs n col t) \<subseteq> insert SPACE (set t)"
  by (induction t arbitrary: col) auto

lemma munge_plain:
  assumes "\<forall>c \<in> set t. isspace c \<longrightarrow> tw_whitespace c"
  shows "plain (munge_whitespace t)"
proof -
  have "x = SPACE \<or> \<not> isspace x" if "x \<in> set (munge_whitespace t)" for x
  proof -
    from that obtain y where y: "y \<in> set (expandtabs 8 0 t)"
      and x: "x = (if tw_whitespace y then SPACE else y)"
      by (auto simp: munge_whitespace_def)
    show ?thesis
    proof (cases "tw_whitespace y")
      case True
      with x show ?thesis by simp
    next
      case False
      with y expandtabs_set[of 8 0 t] have "y \<in> set t"
        by (auto simp: tw_whitespace_def)
      with assms False have "\<not> isspace y" by blast
      with x False show ?thesis by simp
    qed
  qed
  then show ?thesis by (simp add: plain_def list_all_iff)
qed

lemma munge_head:
  assumes "t \<noteq> []" and "\<not> isspace (hd t)"
  shows "munge_whitespace t \<noteq> [] \<and> \<not> isspace (hd (munge_whitespace t))"
proof -
  obtain c cs where t: "t = c # cs" using assms(1) by (cases t) auto
  with assms(2) have c: "\<not> isspace c" by simp
  then have "c \<noteq> TAB" and "\<not> tw_whitespace c"
    using tw_whitespace_isspace[of c] by (auto simp: isspace_def)
  then show ?thesis using c by (simp add: t munge_whitespace_def)
qed

lemma scan_word_no_space:
  "x \<in> set (take (scan_word U b a) a) \<Longrightarrow> \<not> tw_whitespace x"
proof (induction a arbitrary: b)
  case Nil
  then show ?case by simp
next
  case (Cons y a)
  show ?case
  proof (cases "hyphen_break U b (y # a)")
    case True
    then have "y = HYPHEN" by (simp add: hyphen_break_def)
    with True Cons.prems show ?thesis by (simp add: tw_whitespace_def)
  next
    case False
    show ?thesis
    proof (cases "tw_whitespace y")
      case True
      with False Cons.prems show ?thesis by simp
    next
      case nows: False
      show ?thesis
      proof (cases "after_word_punct U b \<and> em_dash_ahead U (y # a)")
        case True
        with False nows Cons.prems show ?thesis by simp
      next
        case other: False
        with False nows Cons.prems
        have "x = y \<or> x \<in> set (take (scan_word U (y # b) a) a)" by auto
        then show ?thesis using nows Cons.IH by auto
      qed
    qed
  qed
qed

lemma chunk_is_class:
  assumes "plain (c # cs)"
  shows "(c = SPACE \<longrightarrow> spaces (take (chunk_len U b (c # cs)) (c # cs))) \<and>
         (c \<noteq> SPACE \<longrightarrow> solid (take (chunk_len U b (c # cs)) (c # cs)))"
proof (cases "c = SPACE")
  case True
  then have eq: "take (chunk_len U b (c # cs)) (c # cs) = takeWhile tw_whitespace (c # cs)"
    by (simp add: chunk_len_def tw_whitespace_def takeWhile_eq_take[symmetric])
  have all: "\<forall>x \<in> set (takeWhile tw_whitespace (c # cs)). x = SPACE"
  proof
    fix x assume x: "x \<in> set (takeWhile tw_whitespace (c # cs))"
    then have "x \<in> set (c # cs)" and "tw_whitespace x"
      by (auto dest: set_takeWhileD)
    then show "x = SPACE" by (rule plain_space[OF assms])
  qed
  have ne: "takeWhile tw_whitespace (c # cs) \<noteq> []" using True by (simp add: tw_whitespace_def)
  have "spaces (takeWhile tw_whitespace (c # cs))"
    unfolding spaces_def list_all_iff using all ne by blast
  then have "spaces (take (chunk_len U b (c # cs)) (c # cs))" by (simp only: eq)
  with True show ?thesis by blast
next
  case False
  have ntw: "\<not> tw_whitespace c"
  proof
    assume "tw_whitespace c"
    then have "c = SPACE" using plain_space[OF assms, of c] by simp
    with False show False by simp
  qed
  have pl: "x = SPACE \<or> \<not> isspace x" if "x \<in> set (c # cs)" for x
    using assms that unfolding plain_def list_all_iff by blast
  have "\<not> tw_whitespace x" if x: "x \<in> set (take (chunk_len U b (c # cs)) (c # cs))" for x
  proof (cases "after_word_punct U b \<and> em_dash_ahead U (c # cs)")
    case True
    then have d: "(after_word_punct U b \<and> em_dash_ahead U (c # cs)) = True" by simp
    have "chunk_len U b (c # cs) = length (takeWhile (\<lambda>x. x = HYPHEN) (c # cs))"
      by (simp only: chunk_len_def list.case ntw d if_False if_True)
    with x have "x \<in> set (take (length (takeWhile (\<lambda>x. x = HYPHEN) (c # cs))) (c # cs))"
      by (simp only:)
    then have "x \<in> set (takeWhile (\<lambda>x. x = HYPHEN) (c # cs))"
      by (simp only: takeWhile_eq_take[symmetric])
    then have "x = HYPHEN" by (auto dest: set_takeWhileD)
    then show ?thesis by (simp add: tw_whitespace_def)
  next
    case nodash: False
    then have nd: "(after_word_punct U b \<and> em_dash_ahead U (c # cs)) = False" by simp
    have "chunk_len U b (c # cs) = Suc (scan_word U (c # b) cs)"
      by (simp only: chunk_len_def list.case ntw nd if_False)
    with x have "x = c \<or> x \<in> set (take (scan_word U (c # b) cs) cs)"
      by auto
    then show ?thesis using ntw scan_word_no_space[of x U "c # b" cs] by blast
  qed
  moreover have "x \<in> set (c # cs)" if "x \<in> set (take (chunk_len U b (c # cs)) (c # cs))" for x
    using that by (rule in_set_takeD)
  ultimately have "\<not> isspace x" if "x \<in> set (take (chunk_len U b (c # cs)) (c # cs))" for x
  proof -
    from that have "\<not> tw_whitespace x" and "x \<in> set (c # cs)" by fact+
    then have "x \<noteq> SPACE" by (auto simp: tw_whitespace_def)
    with pl[OF \<open>x \<in> set (c # cs)\<close>] show ?thesis by simp
  qed
  then have allx: "\<forall>x \<in> set (take (chunk_len U b (c # cs)) (c # cs)). \<not> isspace x" by blast
  have "take (chunk_len U b (c # cs)) (c # cs) \<noteq> []"
    using chunk_len_pos[of U b c cs] by auto
  with allx have "solid (take (chunk_len U b (c # cs)) (c # cs))"
    unfolding solid_def list_all_iff by blast
  with False show ?thesis by blast
qed

lemma chunk_rest_after_spaces:
  assumes "plain (c # cs)" and "c = SPACE" and "drop (chunk_len U b (c # cs)) (c # cs) = d # ds"
  shows "d \<noteq> SPACE"
proof -
  have "drop (chunk_len U b (c # cs)) (c # cs) = dropWhile tw_whitespace (c # cs)"
    using assms(2) by (simp add: chunk_len_def tw_whitespace_def dropWhile_eq_drop)
  with assms(3) have "dropWhile tw_whitespace (c # cs) = d # ds" by simp
  then have "\<not> tw_whitespace d" by (metis hd_dropWhile list.sel(1) list.distinct(1))
  then show ?thesis by (auto simp: tw_whitespace_def)
qed

lemma plain_drop: "plain t \<Longrightarrow> plain (drop n t)"
  by (auto simp: plain_def list_all_iff dest: in_set_dropD)

lemma wordsep_split_ok:
  assumes "plain a"
  shows "chunks_ok (wordsep_split U b a) \<and>
         (\<forall>c cs. a = c # cs \<longrightarrow> wordsep_split U b a \<noteq> [] \<and>
            (if c = SPACE then spaces (hd (wordsep_split U b a)) else solid (hd (wordsep_split U b a))))"
  using assms
proof (induction U b a rule: wordsep_split.induct)
  case (1 U b)
  then show ?case by simp
next
  case (2 U b c cs)
  define n where "n = chunk_len U b (c # cs)"
  define tok where "tok = take n (c # cs)"
  define rest where "rest = drop n (c # cs)"
  define more where "more = wordsep_split U (rev tok @ b) rest"
  have ws: "wordsep_split U b (c # cs) = tok # more"
    by (simp add: n_def tok_def rest_def more_def)
  have cls: "(c = SPACE \<longrightarrow> spaces tok) \<and> (c \<noteq> SPACE \<longrightarrow> solid tok)"
    using chunk_is_class[OF "2.prems", of U b] by (simp add: tok_def n_def)
  have "plain (drop (chunk_len U b (c # cs)) (c # cs))" using "2.prems" by (rule plain_drop)
  from "2.IH"[OF this]
  have IH0: "chunks_ok more \<and>
         (\<forall>d ds. rest = d # ds \<longrightarrow> more \<noteq> [] \<and>
            (if d = SPACE then spaces (hd more) else solid (hd more)))"
    unfolding more_def tok_def rest_def n_def .
  then have IH: "chunks_ok more"
    "\<And>d ds. rest = d # ds \<Longrightarrow> more \<noteq> [] \<and> (if d = SPACE then spaces (hd more) else solid (hd more))"
    by blast+
  have "chunks_ok (tok # more)"
  proof (cases more)
    case Nil
    with cls show ?thesis by auto
  next
    case (Cons m ms)
    have "rest \<noteq> []"
    proof
      assume "rest = []"
      then have "more = []" by (simp add: more_def)
      with Cons show False by simp
    qed
    then obtain d ds where rest: "rest = d # ds" by (cases rest) auto
    show ?thesis
    proof (cases "c = SPACE")
      case True
      then have "d \<noteq> SPACE"
        using chunk_rest_after_spaces[OF "2.prems" True, of U b d ds] rest
        by (simp add: rest_def n_def)
      with IH(2)[OF rest] Cons have "solid m" by simp
      with cls True IH(1) Cons show ?thesis by simp
    next
      case False
      with cls IH(1) Cons show ?thesis by simp
    qed
  qed
  then show ?case unfolding ws using cls by auto
qed

lemma strip_empty_iff: "py_strip s = [] \<longleftrightarrow> list_all isspace s"
proof
  assume "py_strip s = []"
  then have e: "dropWhile isspace (rev (dropWhile isspace s)) = []" by (simp add: py_strip_def)
  show "list_all isspace s"
  proof (rule ccontr)
    assume "\<not> list_all isspace s"
    then have ne: "dropWhile isspace s \<noteq> []" by (simp add: list_all_iff dropWhile_eq_Nil_conv)
    then have "\<not> isspace (hd (dropWhile isspace s))" by (rule hd_dropWhile)
    moreover have "hd (dropWhile isspace s) \<in> set (rev (dropWhile isspace s))" using ne by simp
    ultimately show False using e by (auto simp: dropWhile_eq_Nil_conv)
  qed
next
  assume "list_all isspace s"
  then have "\<forall>x \<in> set s. isspace x" by (simp add: list_all_iff)
  then have d: "dropWhile isspace s = []" unfolding dropWhile_eq_Nil_conv .
  show "py_strip s = []" by (simp only: py_strip_def d rev.simps dropWhile.simps)
qed

lemma solid_not_blank: "solid c \<Longrightarrow> py_strip c \<noteq> []"
  by (cases c) (auto simp: solid_def strip_empty_iff)

lemma spaces_blank: "spaces c \<Longrightarrow> py_strip c = []"
  by (auto simp: spaces_def strip_empty_iff list_all_iff isspace_SPACE)

lemma solid_plain: "solid c \<Longrightarrow> plain c"
  by (auto simp: solid_def plain_def list_all_iff)

lemma spaces_plain: "spaces c \<Longrightarrow> plain c"
  by (auto simp: spaces_def plain_def list_all_iff)

lemma plain_take: "plain c \<Longrightarrow> plain (take n c)"
  by (auto simp: plain_def list_all_iff dest: in_set_takeD)

lemma solid_take: "solid c \<Longrightarrow> 0 < n \<Longrightarrow> solid (take n c)"
proof -
  assume s: "solid c" and n: "0 < n"
  then have "take n c \<noteq> []" by (auto simp: solid_def)
  moreover have "\<not> isspace x" if "x \<in> set (take n c)" for x
    using s in_set_takeD[OF that] by (auto simp: solid_def list_all_iff)
  ultimately show ?thesis by (auto simp: solid_def list_all_iff)
qed

lemma solid_drop: "solid c \<Longrightarrow> n < length c \<Longrightarrow> solid (drop n c)"
  by (auto simp: solid_def list_all_iff dest: in_set_dropD)

lemma spaces_drop: "spaces c \<Longrightarrow> n < length c \<Longrightarrow> spaces (drop n c)"
  by (auto simp: spaces_def list_all_iff dest: in_set_dropD)

lemma chunks_ok_Cons: "chunks_ok (c # cs) \<Longrightarrow> (spaces c \<or> solid c) \<and> chunks_ok cs"
  by (cases cs) auto

lemma chunks_ok_after_spaces: "chunks_ok (c # d # cs) \<Longrightarrow> \<not> solid c \<Longrightarrow> solid d"
  by auto

lemma chunks_ok_elem: "chunks_ok cs \<Longrightarrow> c \<in> set cs \<Longrightarrow> spaces c \<or> solid c"
  by (induction cs) (auto dest: chunks_ok_Cons)

lemma chunks_ok_suffix: "chunks_ok (pre @ cs) \<Longrightarrow> chunks_ok cs"
  by (induction pre) (auto dest: chunks_ok_Cons)

lemma chunks_ok_replace_head:
  assumes "chunks_ok (d # ds)" and "solid d \<longrightarrow> solid d'" and "spaces d \<longrightarrow> spaces d'"
  shows "chunks_ok (d' # ds)"
proof (cases ds)
  case Nil
  with assms show ?thesis by auto
next
  case (Cons e es)
  with assms show ?thesis by auto
qed

lemma fit_split:
  "fit w cl n cs = (cl', n', cs') \<Longrightarrow>
   \<exists>pre. cl' = cl @ pre \<and> cs = pre @ cs' \<and> (cs' \<noteq> [] \<longrightarrow> \<not> n' + int (length (hd cs')) \<le> w)"
proof (induction cs arbitrary: cl n)
  case Nil
  then show ?case by auto
next
  case (Cons c cs)
  show ?case
  proof (cases "n + int (length c) \<le> w")
    case True
    with Cons.prems have "fit w (cl @ [c]) (n + int (length c)) cs = (cl', n', cs')" by simp
    from Cons.IH[OF this] obtain pre where
      "cl' = (cl @ [c]) @ pre" "cs = pre @ cs'" "cs' \<noteq> [] \<longrightarrow> \<not> n' + int (length (hd cs')) \<le> w"
      by blast
    then have "cl' = cl @ (c # pre) \<and> c # cs = (c # pre) @ cs' \<and>
        (cs' \<noteq> [] \<longrightarrow> \<not> n' + int (length (hd cs')) \<le> w)" by simp
    then show ?thesis by blast
  next
    case False
    with Cons.prems have "cl' = cl" "n' = n" "cs' = c # cs" by auto
    with False show ?thesis by auto
  qed
qed

lemma handle_long_word_shape:
  assumes "0 < w" and "0 \<le> n" and "n \<le> w" and "w < int (length d)"
  shows "\<exists>k. k < length d \<and> (n = 0 \<longrightarrow> 0 < k) \<and>
             handle_long_word d ds cl n w = (cl @ [take k d], drop k d # ds)"
proof -
  define space_left where "space_left = w - n"
  define hyphen where "hyphen = rfind HYPHEN d space_left"
  define e where "e = (if int (length d) > space_left \<and> hyphen > 0
                    \<and> list_ex (\<lambda>c. c \<noteq> HYPHEN) (py_upto d hyphen)
                 then hyphen + 1 else space_left)"
  have sl: "0 \<le> space_left" "space_left \<le> w" using assms by (simp_all add: space_left_def)
  have "hyphen < int (length (py_upto d space_left))"
    unfolding hyphen_def rfind_def by (rule last_index_less)
  also have "\<dots> \<le> space_left" using sl(1) by (rule py_upto_length)
  finally have h: "hyphen + 1 \<le> space_left" by simp
  have e: "0 \<le> e" "e \<le> space_left" using sl h by (auto simp: e_def)
  have e0: "n = 0 \<longrightarrow> 0 < e" using assms(1) by (auto simp: e_def space_left_def)
  have hl: "handle_long_word d ds cl n w = (cl @ [py_upto d e], py_from d e # ds)"
    using assms(1) by (simp add: handle_long_word_def Let_def e_def hyphen_def space_left_def)
  have "slice_index d e = nat e" using e(1) by (simp add: slice_index_def)
  then have "handle_long_word d ds cl n w = (cl @ [take (nat e) d], drop (nat e) d # ds)"
    using hl by (simp add: py_upto_def py_from_def)
  moreover have "nat e < length d" using e sl assms(4) by linarith
  moreover have "n = 0 \<longrightarrow> 0 < nat e" using e0 by simp
  ultimately show ?thesis by blast
qed

lemma next_line_raw:
  "next_line w started chunks =
     (let r = raw_line w (if py_strip (hd chunks) = [] \<and> started then tl chunks else chunks)
      in (if fst r \<noteq> [] \<and> py_strip (last (fst r)) = [] then butlast (fst r) else fst r, snd r))"
  by (simp add: next_line_def raw_line_def Let_def split: prod.splits list.splits)

lemma raw_line_props:
  assumes w: "0 < w" and ok: "chunks_ok chunks1" and hd1: "chunks1 \<noteq> [] \<longrightarrow> solid (hd chunks1)"
  shows "chunks_ok (snd (raw_line w chunks1))"
    and "chunks1 \<noteq> [] \<longrightarrow> fst (raw_line w chunks1) \<noteq> [] \<and> solid (hd (fst (raw_line w chunks1)))"
    and "\<forall>c \<in> set (fst (raw_line w chunks1)). plain c"
proof -
  obtain cur_line cur_len chunks2 where f: "fit w [] 0 chunks1 = (cur_line, cur_len, chunks2)"
    by (cases "fit w [] 0 chunks1") auto
  from fit_split[OF f] have split: "chunks1 = cur_line @ chunks2"
    and full: "chunks2 \<noteq> [] \<longrightarrow> \<not> cur_len + int (length (hd chunks2)) \<le> w"
    by auto
  from fit_length[OF f] w have len: "cur_len = int (length (concat cur_line))" "cur_len \<le> w"
    by auto
  have ok2: "chunks_ok chunks2" using ok split chunks_ok_suffix by metis
  have pl: "\<forall>c \<in> set cur_line. plain c"
  proof
    fix c assume "c \<in> set cur_line"
    then have "c \<in> set chunks1" using split by simp
    from chunks_ok_elem[OF ok this] show "plain c" using spaces_plain solid_plain by blast
  qed
  have hdcl: "cur_line \<noteq> [] \<longrightarrow> solid (hd cur_line)"
    using hd1 split by (cases cur_line) auto
  show "chunks_ok (snd (raw_line w chunks1))"
    and "chunks1 \<noteq> [] \<longrightarrow> fst (raw_line w chunks1) \<noteq> [] \<and> solid (hd (fst (raw_line w chunks1)))"
    and "\<forall>c \<in> set (fst (raw_line w chunks1)). plain c"
  proof (atomize (full), cases chunks2)
    case Nil
    then have "raw_line w chunks1 = (cur_line, [])" by (simp add: raw_line_def f)
    moreover have "chunks1 = cur_line" using split Nil by simp
    ultimately show "chunks_ok (snd (raw_line w chunks1)) \<and>
      (chunks1 \<noteq> [] \<longrightarrow> fst (raw_line w chunks1) \<noteq> [] \<and> solid (hd (fst (raw_line w chunks1)))) \<and>
      (\<forall>c \<in> set (fst (raw_line w chunks1)). plain c)"
      using pl hdcl by simp
  next
    case (Cons d ds)
    have dcls: "spaces d \<or> solid d" using ok2 Cons chunks_ok_Cons by blast
    show "chunks_ok (snd (raw_line w chunks1)) \<and>
      (chunks1 \<noteq> [] \<longrightarrow> fst (raw_line w chunks1) \<noteq> [] \<and> solid (hd (fst (raw_line w chunks1)))) \<and>
      (\<forall>c \<in> set (fst (raw_line w chunks1)). plain c)"
    proof (cases "int (length d) > w")
      case True
      have n0: "0 \<le> cur_len" using len(1) by simp
      from handle_long_word_shape[OF w n0 len(2) True, of ds cur_line]
      obtain k where k: "k < length d" "cur_len = 0 \<longrightarrow> 0 < k"
        and h: "handle_long_word d ds cur_line cur_len w = (cur_line @ [take k d], drop k d # ds)"
        by blast
      have r: "raw_line w chunks1 = (cur_line @ [take k d], drop k d # ds)"
        using True by (simp add: raw_line_def f Cons h)
      have "chunks_ok (drop k d # ds)"
        using ok2[unfolded Cons] k(1) by (rule_tac chunks_ok_replace_head) (auto intro: solid_drop spaces_drop)
      moreover have "plain (take k d)" using dcls spaces_plain solid_plain plain_take by blast
      moreover have "solid (hd (cur_line @ [take k d]))"
      proof (cases cur_line)
        case Nil
        then have "cur_len = 0" using len(1) by simp
        with k(2) have "0 < k" by simp
        moreover have "solid d" using hd1 split Nil Cons by simp
        ultimately show ?thesis using Nil by (simp add: solid_take)
      next
        case (Cons a as)
        with hdcl show ?thesis by simp
      qed
      ultimately show ?thesis using r pl by simp
    next
      case False
      then have r: "raw_line w chunks1 = (cur_line, chunks2)" by (simp add: raw_line_def f Cons)
      have "cur_line \<noteq> []"
      proof
        assume "cur_line = []"
        then have "cur_len = 0" using len(1) by simp
        with full Cons False show False by simp
      qed
      with r ok2 pl hdcl show ?thesis by simp
    qed
  qed
qed

lemma good_concat:
  assumes "cl \<noteq> []" and "solid (hd cl)" and "\<forall>c \<in> set cl. plain c"
  shows "good_line (concat cl)"
proof -
  obtain a as where cl: "cl = a # as" using assms(1) by (cases cl) auto
  with assms(2) obtain x where "x \<in> set a" "\<not> isspace x"
    by (cases a) (auto simp: solid_def)
  then have "list_ex (\<lambda>x. \<not> isspace x) (concat cl)" by (auto simp: cl list_ex_iff)
  moreover have "plain (concat cl)" using assms(3) by (auto simp: plain_def list_all_iff)
  ultimately show ?thesis by (simp add: good_line_def)
qed

lemma next_line_good:
  assumes w: "0 < w" and ne: "chunks \<noteq> []" and ok: "chunks_ok chunks"
    and first: "\<not> started \<longrightarrow> solid (hd chunks)"
  shows "chunks_ok (snd (next_line w started chunks))"
    and "fst (next_line w started chunks) \<noteq> [] \<longrightarrow> good_line (concat (fst (next_line w started chunks)))"
    and "\<not> started \<longrightarrow> fst (next_line w started chunks) \<noteq> []"
proof -
  obtain c cs where chunks: "chunks = c # cs" using ne by (cases chunks) auto
  define chunks1 where "chunks1 = (if py_strip (hd chunks) = [] \<and> started then tl chunks else chunks)"
  define r where "r = raw_line w chunks1"
  define cl3 where "cl3 = (if fst r \<noteq> [] \<and> py_strip (last (fst r)) = [] then butlast (fst r) else fst r)"
  have nl: "next_line w started chunks = (cl3, snd r)"
    by (simp add: next_line_raw Let_def chunks1_def r_def cl3_def)
  have ccls: "spaces c \<or> solid c" using ok chunks chunks_ok_Cons by blast
  have ok1: "chunks_ok chunks1"
    using ok chunks chunks_ok_Cons by (auto simp: chunks1_def)
  have hd1: "chunks1 \<noteq> [] \<longrightarrow> solid (hd chunks1)"
  proof (cases "py_strip c = [] \<and> started")
    case True
    then have c1: "chunks1 = cs" by (simp add: chunks1_def chunks)
    have "\<not> solid c" using True solid_not_blank by blast
    then show ?thesis using ok chunks c1 by (cases cs) auto
  next
    case False
    then have c1: "chunks1 = chunks" by (auto simp: chunks1_def chunks)
    have "solid c"
    proof (cases started)
      case True
      with False have "py_strip c \<noteq> []" by simp
      with ccls spaces_blank show ?thesis by blast
    next
      case False
      with first chunks show ?thesis by simp
    qed
    then show ?thesis by (simp add: c1 chunks)
  qed
  have ns: "\<not> started \<longrightarrow> chunks1 \<noteq> []" by (simp add: chunks1_def chunks)
  note props = raw_line_props[OF w ok1 hd1, folded r_def]
  have keep: "fst r \<noteq> [] \<longrightarrow> solid (hd (fst r)) \<longrightarrow> cl3 \<noteq> [] \<and> hd cl3 = hd (fst r)"
  proof (intro impI)
    assume a: "fst r \<noteq> []" and s: "solid (hd (fst r))"
    then obtain x xs where xs: "fst r = x # xs" by (cases "fst r") auto
    show "cl3 \<noteq> [] \<and> hd cl3 = hd (fst r)"
    proof (cases xs)
      case Nil
      with xs s have "py_strip (last (fst r)) \<noteq> []" using solid_not_blank by simp
      then show ?thesis using a by (simp add: cl3_def)
    next
      case (Cons y ys)
      then show ?thesis using xs by (simp add: cl3_def)
    qed
  qed
  have sub: "set cl3 \<subseteq> set (fst r)" by (auto simp: cl3_def dest: in_set_butlastD)
  have empty: "fst r = [] \<longrightarrow> cl3 = []" by (simp add: cl3_def)
  show "chunks_ok (snd (next_line w started chunks))" using props(1) by (simp add: nl)
  show "fst (next_line w started chunks) \<noteq> [] \<longrightarrow> good_line (concat (fst (next_line w started chunks)))"
  proof
    assume "fst (next_line w started chunks) \<noteq> []"
    then have c3: "cl3 \<noteq> []" by (simp add: nl)
    with empty have fr: "fst r \<noteq> []" by blast
    have "chunks1 \<noteq> []"
    proof
      assume "chunks1 = []"
      then have "fst r = []" by (simp add: r_def raw_line_def)
      with fr show False by simp
    qed
    with props(2) have s: "solid (hd (fst r))" by blast
    with keep fr have "hd cl3 = hd (fst r)" by blast
    with s have "solid (hd cl3)" by simp
    moreover have "\<forall>c \<in> set cl3. plain c" using props(3) sub by blast
    ultimately have "good_line (concat cl3)" using c3 by (intro good_concat)
    then show "good_line (concat (fst (next_line w started chunks)))" by (simp add: nl)
  qed
  show "\<not> started \<longrightarrow> fst (next_line w started chunks) \<noteq> []"
  proof
    assume "\<not> started"
    with ns props(2) keep have "cl3 \<noteq> []" by blast
    then show "fst (next_line w started chunks) \<noteq> []" unfolding nl by simp
  qed
qed

lemma wrap_loop_good:
  assumes "0 < width" and "chunks_ok chunks" and "lines = [] \<longrightarrow> chunks = [] \<or> solid (hd chunks)"
    and "\<forall>l \<in> set lines. good_line l"
    and "wrap_loop width lines chunks = Inr ls"
  shows "\<forall>l \<in> set ls. good_line l"
  using assms
proof (induction width lines chunks rule: wrap_loop.induct)
  case (1 width lines chunks)
  show ?case
  proof (cases "chunks = []")
    case True
    with 1 show ?thesis by (subst (asm) (2) wrap_loop.simps) simp
  next
    case False
    define nl where "nl = next_line width (lines \<noteq> []) chunks"
    define lines' where "lines' = (if fst nl \<noteq> [] then lines @ [concat (fst nl)] else lines)"
    have step: "wrap_loop width lines chunks = wrap_loop width lines' (snd nl)"
      using False "1.prems"(1) by (subst wrap_loop.simps) (simp add: nl_def lines'_def)
    have first: "\<not> lines \<noteq> [] \<longrightarrow> solid (hd chunks)" using "1.prems"(3) False by simp
    note g = next_line_good[OF "1.prems"(1) False "1.prems"(2) first, folded nl_def]
    have a: "chunks_ok (snd nl)" by (rule g(1))
    have b: "lines' = [] \<longrightarrow> snd nl = [] \<or> solid (hd (snd nl))"
      using g(3) by (auto simp: lines'_def)
    have c: "\<forall>l \<in> set lines'. good_line l"
      using "1.prems"(4) g(2) by (auto simp: lines'_def)
    have d: "wrap_loop width lines' (snd nl) = Inr ls" using step "1.prems"(5) by simp
    have "\<not> width \<le> 0" using "1.prems"(1) by simp
    note IH = "1.IH"[OF this False "1.prems"(1), folded nl_def, folded lines'_def]
    from a b c d show ?thesis by (rule IH)
  qed
qed

lemma py_split_no_sep: "c \<notin> set s \<Longrightarrow> py_split [c] s = [s]"
  by (induction s) auto

lemma split_join_lines:
  assumes "ls \<noteq> []" and "\<forall>l \<in> set ls. c \<notin> set l"
  shows "py_split [c] (py_join [c] ls) = ls"
  using assms
proof (induction ls)
  case Nil
  then show ?case by simp
next
  case (Cons l ls)
  show ?case
  proof (cases ls)
    case Nil
    with Cons.prems show ?thesis by (simp add: py_split_no_sep)
  next
    case (Cons m ms)
    have "py_join [c] (l # ls) = l @ c # py_join [c] ls" by (simp add: Cons)
    then have "py_split [c] (py_join [c] (l # ls)) = py_split [c] l @ py_split [c] (py_join [c] ls)"
      by (simp only: py_split_char_append)
    moreover have "py_split [c] (py_join [c] ls) = ls" using Cons.IH Cons.prems Cons by simp
    moreover have "py_split [c] l = [l]" using Cons.prems by (simp add: py_split_no_sep)
    ultimately show ?thesis by simp
  qed
qed

lemma good_line_no_newline: "good_line l \<Longrightarrow> NL \<notin> set l"
  by (auto simp: good_line_def plain_def list_all_iff isspace_def)

lemma good_line_not_blank: "good_line l \<Longrightarrow> py_strip l \<noteq> []"
  by (auto simp: good_line_def strip_empty_iff list_all_iff list_ex_iff)

lemma split_chunks_ok:
  assumes "\<forall>c \<in> set t. isspace c \<longrightarrow> tw_whitespace c" and "t = [] \<or> \<not> isspace (hd t)"
  shows "chunks_ok (split_chunks U t) \<and> (split_chunks U t = [] \<or> solid (hd (split_chunks U t)))"
proof -
  define m where "m = munge_whitespace t"
  have pm: "plain m" unfolding m_def using assms(1) by (rule munge_plain)
  note tok = wordsep_split_ok[OF pm, of U "[]"]
  have all: "\<forall>c \<in> set (wordsep_split U [] m). c \<noteq> []"
    using chunks_ok_elem[OF conjunct1[OF tok]] by (auto simp: spaces_def solid_def)
  then have id: "split_chunks U t = wordsep_split U [] m"
    by (simp add: split_chunks_def m_def filter_id_conv)
  have "wordsep_split U [] m = [] \<or> solid (hd (wordsep_split U [] m))"
  proof (cases m)
    case Nil
    then show ?thesis by simp
  next
    case (Cons c cs)
    then have "t \<noteq> []" by (auto simp: m_def munge_whitespace_def)
    with assms(2) have "\<not> isspace (hd m)" using munge_head[of t] by (simp add: m_def)
    then have "c \<noteq> SPACE" using Cons isspace_SPACE by auto
    with tok Cons show ?thesis by simp
  qed
  with tok id show ?thesis by simp
qed

lemma textwrap_fill_nonblank:
  assumes "0 < width" and "\<forall>c \<in> set t. isspace c \<longrightarrow> tw_whitespace c" and "t = [] \<or> \<not> isspace (hd t)"
    and "textwrap_fill U t width = Inr wrapped"
  shows "\<forall>l \<in> set (py_split [NL] wrapped). l = [] \<or> (py_strip l \<noteq> [] \<and> NL \<notin> set l)"
proof -
  obtain ls where ls: "wrap_loop width [] (split_chunks U t) = Inr ls"
    and wr: "wrapped = py_join [NL] ls"
    using assms(4) by (auto simp: textwrap_fill_def split: sum.splits)
  note ok = split_chunks_ok[OF assms(2,3), of U]
  have good: "\<forall>l \<in> set ls. good_line l"
    using wrap_loop_good[OF assms(1) conjunct1[OF ok] _ _ ls] ok by simp
  show ?thesis
  proof (cases ls)
    case Nil
    then show ?thesis by (simp add: wr)
  next
    case (Cons a as)
    have "py_split [NL] wrapped = ls"
      unfolding wr using good good_line_no_newline by (intro split_join_lines) (auto simp: Cons)
    then show ?thesis using good good_line_not_blank good_line_no_newline by auto
  qed
qed

lemma wrap_loop_keeps_lines:
  "wrap_loop width lines chunks = Inr ls \<Longrightarrow> lines \<noteq> [] \<Longrightarrow> ls \<noteq> []"
proof (induction width lines chunks rule: wrap_loop.induct)
  case (1 width lines chunks)
  show ?case
  proof (cases "width \<le> 0 \<or> chunks = []")
    case True
    with "1.prems" show ?thesis by (subst (asm) wrap_loop.simps) (auto split: if_splits)
  next
    case False
    define nl where "nl = next_line width (lines \<noteq> []) chunks"
    define lines' where "lines' = (if fst nl \<noteq> [] then lines @ [concat (fst nl)] else lines)"
    have step: "wrap_loop width lines chunks = wrap_loop width lines' (snd nl)"
      using False by (subst wrap_loop.simps) (simp add: nl_def lines'_def)
    have a: "wrap_loop width lines' (snd nl) = Inr ls" using step "1.prems"(1) by simp
    have b: "lines' \<noteq> []" using "1.prems"(2) by (simp add: lines'_def)
    have "\<not> width \<le> 0" and "chunks \<noteq> []" using False by simp_all
    note IH = "1.IH"[OF this, folded nl_def, folded lines'_def]
    from a b show ?thesis by (rule IH)
  qed
qed

lemma wrap_loop_first_line:
  assumes "0 < width" and "chunks \<noteq> []" and "chunks_ok chunks" and "solid (hd chunks)"
    and "wrap_loop width [] chunks = Inr ls"
  shows "ls \<noteq> []"
proof -
  define nl where "nl = next_line width False chunks"
  have ne: "fst nl \<noteq> []"
    using next_line_good(3)[OF assms(1,2,3), of False] assms(4) by (simp add: nl_def)
  have "wrap_loop width [] chunks = wrap_loop width [concat (fst nl)] (snd nl)"
    using assms(1,2) ne by (subst wrap_loop.simps) (simp add: nl_def)
  with assms(5) have "wrap_loop width [concat (fst nl)] (snd nl) = Inr ls" by simp
  then show ?thesis by (rule wrap_loop_keeps_lines) simp
qed

lemma textwrap_fill_lines_nonblank:
  assumes "0 < width" and "\<forall>c \<in> set t. isspace c \<longrightarrow> tw_whitespace c"
    and "t \<noteq> []" and "\<not> isspace (hd t)"
    and "textwrap_fill U t width = Inr wrapped"
  shows "\<forall>l \<in> set (py_split [NL] wrapped). py_strip l \<noteq> [] \<and> NL \<notin> set l"
proof -
  obtain ls where ls: "wrap_loop width [] (split_chunks U t) = Inr ls"
    and wr: "wrapped = py_join [NL] ls"
    using assms(5) by (auto simp: textwrap_fill_def split: sum.splits)
  have ok: "chunks_ok (split_chunks U t) \<and> (split_chunks U t = [] \<or> solid (hd (split_chunks U t)))"
    using split_chunks_ok[of t U] assms(2,4) by simp
  have "munge_whitespace t \<noteq> []" using munge_head[OF assms(3,4)] by simp
  then obtain c cs where m: "munge_whitespace t = c # cs" by (cases "munge_whitespace t") auto
  have "wordsep_split U [] (munge_whitespace t) \<noteq> []" by (simp add: m)
  moreover have "\<forall>x \<in> set (wordsep_split U [] (munge_whitespace t)). x \<noteq> []"
    using chunks_ok_elem[OF conjunct1[OF wordsep_split_ok[OF munge_plain[OF assms(2)], of U "[]"]]]
    by (auto simp: spaces_def solid_def)
  ultimately have ne: "split_chunks U t \<noteq> []"
    by (simp add: split_chunks_def filter_id_conv)
  with ok have s: "solid (hd (split_chunks U t))" by blast
  have lne: "ls \<noteq> []" using wrap_loop_first_line[OF assms(1) ne conjunct1[OF ok] s ls] .
  have good: "\<forall>l \<in> set ls. good_line l"
    using wrap_loop_good[OF assms(1) conjunct1[OF ok] _ _ ls] ok by simp
  have "py_split [NL] wrapped = ls"
    unfolding wr using good good_line_no_newline lne by (intro split_join_lines) auto
  then show ?thesis using good good_line_not_blank good_line_no_newline by auto
qed

lemma settled_line:
  "NL \<notin> set l \<Longrightarrow> int (length l) \<le> w \<Longrightarrow> (py_strip l = [] \<longrightarrow> l = []) \<Longrightarrow> settled w l"
  by (simp add: settled_def py_split_no_sep)

lemma settled_empty: "0 \<le> w \<Longrightarrow> settled w []"
  by (simp add: settled_def)

lemma settled_join_lines:
  assumes "0 \<le> w" and "\<forall>e \<in> set es. settled w e"
  shows "settled w (py_join [NL] es)"
  using assms(2)
proof (induction es)
  case Nil
  then show ?case using assms(1) by (simp add: settled_empty)
next
  case (Cons e es)
  show ?case
  proof (cases es)
    case Nil
    with Cons.prems show ?thesis by simp
  next
    case (Cons m ms)
    have "py_join [NL] (e # es) = e @ NL # py_join [NL] es" by (simp add: Cons)
    then have "py_split [NL] (py_join [NL] (e # es)) = py_split [NL] e @ py_split [NL] (py_join [NL] es)"
      by (simp only: py_split_char_append)
    then show ?thesis using Cons.IH Cons.prems by (simp add: settled_def)
  qed
qed

lemma settled_join_paragraphs:
  assumes "0 \<le> w" and "\<forall>p \<in> set ps. settled w p"
  shows "settled w (py_join [NL, NL] ps)"
  using assms(2)
proof (induction ps)
  case Nil
  then show ?case using assms(1) by (simp add: settled_empty)
next
  case (Cons p ps)
  show ?case
  proof (cases ps)
    case Nil
    with Cons.prems show ?thesis by simp
  next
    case (Cons q qs)
    have "py_split [NL] (py_join [NL, NL] (p # ps))
        = py_split [NL] p @ [[]] @ py_split [NL] (py_join [NL, NL] ps)"
      unfolding Cons by (rule py_split_join_blank)
    then show ?thesis using Cons.IH Cons.prems assms(1) by (simp add: settled_def)
  qed
qed

lemma py_split_piece_no_sep: "x \<in> set (py_split [c] s) \<Longrightarrow> c \<notin> set x"
proof (induction s arbitrary: x)
  case Nil
  then show ?case by simp
next
  case (Cons y s)
  obtain p ps where sp: "py_split [c] s = p # ps"
    using py_split_not_Nil[of "[c]" s] by (cases "py_split [c] s") auto
  show ?case
  proof (cases "y = c")
    case True
    with Cons.prems have "x = [] \<or> x \<in> set (py_split [c] s)" by auto
    then show ?thesis using Cons.IH by auto
  next
    case False
    with Cons.prems sp have "x = y # p \<or> x \<in> set ps" by auto
    then show ?thesis using Cons.IH[of p] Cons.IH[of x] sp False by auto
  qed
qed

lemma py_split_piece_set: "x \<in> set (py_split sep s) \<Longrightarrow> set x \<subseteq> set s"
proof (induction sep s arbitrary: x rule: py_split.induct)
  case (1 sep)
  then show ?case by simp
next
  case (2 sep c cs)
  show ?case
  proof (cases "sep \<noteq> [] \<and> prefix sep (c # cs)")
    case True
    with "2.prems" have "x = [] \<or> x \<in> set (py_split sep (drop (length sep) (c # cs)))" by auto
    then show ?thesis
    proof
      assume "x = []" then show ?thesis by simp
    next
      assume "x \<in> set (py_split sep (drop (length sep) (c # cs)))"
      from "2.IH"(1)[OF True this] have "set x \<subseteq> set (drop (length sep) (c # cs))" .
      then show ?thesis using set_drop_subset[of "length sep" "c # cs"] by blast
    qed
  next
    case False
    obtain p ps where sp: "py_split sep cs = p # ps"
      using py_split_not_Nil[of sep cs] by (cases "py_split sep cs") auto
    with False "2.prems" have "x = c # p \<or> x \<in> set ps" by auto
    then show ?thesis
      using "2.IH"(2)[OF False, of p] "2.IH"(2)[OF False, of x] sp by auto
  qed
qed

lemma collect_all:
  "(\<And>x. x \<in> set xs \<Longrightarrow> \<exists>y. f x = Inr y \<and> P y) \<Longrightarrow> \<exists>ys. collect f xs = Inr ys \<and> (\<forall>y \<in> set ys. P y)"
proof (induction xs)
  case Nil
  then show ?case by simp
next
  case (Cons x xs)
  from Cons.prems[of x] obtain y where y: "f x = Inr y" "P y" by auto
  from Cons.IH Cons.prems obtain ys where ys: "collect f xs = Inr ys" "\<forall>y \<in> set ys. P y"
    by (metis list.set_intros(2))
  show ?case using y ys by simp
qed

lemma wrap_prose_line_settled:
  assumes "0 < w" and "NL \<notin> set l"
    and "w < int (length l) \<Longrightarrow> (\<forall>c \<in> set l. isspace c \<longrightarrow> tw_whitespace c) \<and> \<not> isspace (hd l)"
  shows "\<exists>es. wrap_prose_line (textwrap_fill U) w l = Inr es \<and> (\<forall>e \<in> set es. settled w e)"
proof (cases "py_strip l = []")
  case True
  then show ?thesis using assms(1) by (simp add: wrap_prose_line_def settled_empty)
next
  case blank: False
  show ?thesis
  proof (cases "int (length l) \<le> w")
    case True
    then show ?thesis using blank assms(2) by (simp add: wrap_prose_line_def settled_line)
  next
    case False
    then have long: "w < int (length l)" by simp
    then have ne: "l \<noteq> []" using assms(1) by auto
    obtain wrapped where wr: "textwrap_fill U l w = Inr wrapped"
      using textwrap_fill_returns[OF assms(1)] by blast
    have a: "\<forall>x \<in> set (py_split [NL] wrapped). int (length x) \<le> w"
      using textwrap_fill_lines[OF assms(1) wr] .
    have b: "\<forall>x \<in> set (py_split [NL] wrapped). py_strip x \<noteq> [] \<and> NL \<notin> set x"
      using textwrap_fill_lines_nonblank[OF assms(1) _ ne _ wr] assms(3)[OF long] by blast
    have "settled w wrapped" using a b by (simp add: settled_def list_all_iff)
    then show ?thesis using blank False wr by (simp add: wrap_prose_line_def)
  qed
qed

lemma wrap_code_line_settled:
  assumes "0 < w" and "NL \<notin> set l"
    and "int (length l) \<le> w \<Longrightarrow> py_strip l = [] \<Longrightarrow> l = []"
    and "w < int (length l) \<Longrightarrow>
           (\<forall>c \<in> set l. isspace c \<longrightarrow> tw_whitespace c) \<and> 20 < w - int (length (takeWhile isspace l))"
  shows "\<exists>es. wrap_code_line (textwrap_fill U) w l = Inr es \<and> (\<forall>e \<in> set es. settled w e)"
proof (cases "int (length l) \<le> w")
  case True
  then show ?thesis using assms(2,3) by (auto simp: wrap_code_line_def settled_line)
next
  case False
  then have long: "w < int (length l)" by simp
  define ind where "ind = takeWhile isspace l"
  define cw where "cw = w - int (length ind)"
  have cw: "20 < cw" using assms(4)[OF long] by (simp add: cw_def ind_def)
  then have cwp: "0 < cw" by simp
  have l: "l = ind @ py_lstrip l" by (simp add: ind_def py_lstrip_def)
  have "length l = length ind + length (py_lstrip l)" by (subst l) simp
  then have ne: "py_lstrip l \<noteq> []" using long cw by (auto simp: cw_def)
  have hd: "\<not> isspace (hd (py_lstrip l))"
    using ne hd_dropWhile[of isspace l] by (simp add: py_lstrip_def)
  have sub: "set (py_lstrip l) \<subseteq> set l" by (simp add: py_lstrip_def set_dropWhileD subsetI)
  have ws: "\<forall>c \<in> set (py_lstrip l). isspace c \<longrightarrow> tw_whitespace c"
    using assms(4)[OF long] sub by blast
  obtain wrapped where wr: "textwrap_fill U (py_lstrip l) cw = Inr wrapped"
    using textwrap_fill_returns[OF cwp] by blast
  have a: "\<forall>x \<in> set (py_split [NL] wrapped). int (length x) \<le> cw"
    using textwrap_fill_lines[OF cwp wr] .
  have b: "\<forall>x \<in> set (py_split [NL] wrapped). py_strip x \<noteq> [] \<and> NL \<notin> set x"
    using textwrap_fill_lines_nonblank[OF cwp ws ne hd wr] .
  have nli: "NL \<notin> set ind" using assms(2) l by (metis Un_iff set_append)
  have "settled w (ind @ x)" if x: "x \<in> set (py_split [NL] wrapped)" for x
  proof (rule settled_line)
    show "NL \<notin> set (ind @ x)" using nli b x by simp
    show "int (length (ind @ x)) \<le> w" using a x by (auto simp: cw_def)
    have "\<not> list_all isspace x" using b x by (simp add: strip_empty_iff)
    then have "py_strip (ind @ x) \<noteq> []" by (simp add: strip_empty_iff)
    then show "py_strip (ind @ x) = [] \<longrightarrow> ind @ x = []" by simp
  qed
  moreover have "wrap_code_line (textwrap_fill U) w l
      = Inr (map (\<lambda>x. ind @ x) (py_split [NL] wrapped))"
    using cw wr by (simp add: wrap_code_line_long[OF long] ind_def[symmetric] cw_def[symmetric])
  ultimately show ?thesis by auto
qed

lemma wrap_paragraph_settled:
  assumes "0 < w"
    and "\<forall>l \<in> set (py_split [NL] p).
           (if int (length l) \<le> w then is_code_paragraph p \<longrightarrow> py_strip l = [] \<longrightarrow> l = []
            else (\<forall>c \<in> set l. isspace c \<longrightarrow> tw_whitespace c) \<and>
                 (if is_code_paragraph p then 20 < w - int (length (takeWhile isspace l))
                  else \<not> isspace (hd l)))"
  shows "\<exists>r. wrap_paragraph (textwrap_fill U) w p = Inr r \<and> settled w r"
proof -
  define f where "f = (if is_code_paragraph p
      then wrap_code_line (textwrap_fill U) w else wrap_prose_line (textwrap_fill U) w)"
  have "\<exists>es. f l = Inr es \<and> (\<forall>e \<in> set es. settled w e)" if l: "l \<in> set (py_split [NL] p)" for l
  proof -
    have nl: "NL \<notin> set l" using l by (rule py_split_piece_no_sep)
    note h = assms(2)[rule_format, OF l]
    show ?thesis
    proof (cases "is_code_paragraph p")
      case True
      have "\<exists>es. wrap_code_line (textwrap_fill U) w l = Inr es \<and> (\<forall>e \<in> set es. settled w e)"
        using h True by (intro wrap_code_line_settled[OF assms(1) nl]) (auto split: if_splits)
      then show ?thesis by (simp add: f_def True)
    next
      case False
      have "\<exists>es. wrap_prose_line (textwrap_fill U) w l = Inr es \<and> (\<forall>e \<in> set es. settled w e)"
        using h False by (intro wrap_prose_line_settled[OF assms(1) nl]) (auto split: if_splits)
      then show ?thesis by (simp add: f_def False)
    qed
  qed
  from collect_all[of "py_split [NL] p" f "\<lambda>es. \<forall>e \<in> set es. settled w e", OF this]
  obtain ys where ys: "collect f (py_split [NL] p) = Inr ys" "\<forall>es \<in> set ys. \<forall>e \<in> set es. settled w e"
    by blast
  have "settled w (py_join [NL] (concat ys))"
    using assms(1) ys(2) by (intro settled_join_lines) auto
  then show ?thesis using ys(1) by (simp add: wrap_paragraph_def f_def[symmetric])
qed

lemma paragraph_path_settled:
  assumes "0 < w"
    and "\<forall>p \<in> set (py_split [NL, NL] text). \<forall>l \<in> set (py_split [NL] p).
           (if int (length l) \<le> w then is_code_paragraph p \<longrightarrow> py_strip l = [] \<longrightarrow> l = []
            else (\<forall>c \<in> set l. isspace c \<longrightarrow> tw_whitespace c) \<and>
                 (if is_code_paragraph p then 20 < w - int (length (takeWhile isspace l))
                  else \<not> isspace (hd l)))"
  shows "\<exists>r. paragraph_path (textwrap_fill U) w text = Inr r \<and> settled w r"
proof -
  have "\<exists>r. wrap_paragraph (textwrap_fill U) w p = Inr r \<and> settled w r"
    if "p \<in> set (py_split [NL, NL] text)" for p
    using assms(2) that by (intro wrap_paragraph_settled[OF assms(1)]) blast
  from collect_all[of "py_split [NL, NL] text" "wrap_paragraph (textwrap_fill U) w" "settled w", OF this]
  obtain ps where ps: "collect (wrap_paragraph (textwrap_fill U) w) (py_split [NL, NL] text) = Inr ps"
    "\<forall>p \<in> set ps. settled w p" by blast
  have "settled w (py_join [NL, NL] ps)"
    using assms(1) ps(2) by (intro settled_join_paragraphs) auto
  then show ?thesis using ps(1) by (simp add: paragraph_path_def)
qed

lemma settled_unchanged:
  assumes "settled w r"
  shows "wrap_text_for_terminal fill terminal_size r (Some w) = Inr r"
proof (rule unchanged_when_fitting)
  show "\<forall>l \<in> set (py_split [NL] r). int (length l) \<le> w"
    using assms by (simp add: settled_def list_all_iff)
  have "\<forall>l \<in> set (py_split [NL] p). py_strip l = [] \<longrightarrow> l = []"
    if "p \<in> set (py_split [NL, NL] r)" for p
    using lines_of_paragraph[OF that] assms by (auto simp: settled_def list_all_iff)
  then show "has_box r \<or> (\<forall>p \<in> set (py_split [NL, NL] r).
      is_code_paragraph p \<or> (\<forall>l \<in> set (py_split [NL] p). py_strip l = [] \<longrightarrow> l = []))"
    by blast
qed

text \<open>
  A condition on the input under which the first pass gives a text that the second pass
  returns unchanged.
\<close>

lemma settled_input_unchanged:
  assumes "0 < w" and "\<not> has_box text"
    and "\<forall>p \<in> set (py_split [NL, NL] text). \<forall>l \<in> set (py_split [NL] p).
           (if int (length l) \<le> w then is_code_paragraph p \<longrightarrow> py_strip l = [] \<longrightarrow> l = []
            else (\<forall>c \<in> set l. isspace c \<longrightarrow> tw_whitespace c) \<and>
                 (if is_code_paragraph p then 20 < w - int (length (takeWhile isspace l))
                  else \<not> isspace (hd l)))"
  shows "\<exists>r. wrap_text_for_terminal (textwrap_fill U) terminal_size text (Some w) = Inr r \<and>
             wrap_text_for_terminal (textwrap_fill U) terminal_size r (Some w) = Inr r"
proof -
  obtain r where r: "paragraph_path (textwrap_fill U) w text = Inr r" "settled w r"
    using paragraph_path_settled[OF assms(1,3)] by blast
  have "wrap_text_for_terminal (textwrap_fill U) terminal_size text (Some w) = Inr r"
    using assms(2) r(1) by (simp add: wrap_text_for_terminal_def resolve_width_def)
  then show ?thesis using settled_unchanged[OF r(2)] by blast
qed

section \<open>The texts that a pass returns unchanged\<close>





















section \<open>Evaluation on concrete texts\<close>

text \<open>
  The rules that compute the functions on a concrete text. The definitions with a
  \<open>let\<close> are used with the \<open>let\<close> unfolded, so that the simplifier meets every term with its
  arguments evaluated.
\<close>

lemmas textwrap_eval =
  textwrap_fill_def wrap_loop.simps split_chunks_def munge_whitespace_def tw_whitespace_def
  chunk_len_def em_dash_ahead_def after_word_punct_def hyphen_break_def word_punct_def
  word_char_def letter_def ascii_db_def next_line_def[unfolded Let_def] handle_long_word_def[unfolded Let_def] rfind_def
  py_upto_def py_from_def slice_index_def py_strip_def isspace_def u_def

lemmas reflow_eval =
  wrap_text_for_terminal_def has_box_def paragraph_path_def wrap_paragraph_def resolve_width_def
  is_code_paragraph_def wrap_prose_line_def wrap_code_line_def[unfolded Let_def] py_lstrip_def table_path_def
  wrap_table_line_def

lemma two_space_prose_eval:
  "wrap_paragraph (textwrap_fill ascii_db) 30 two_space_paragraph
     = Inr (u ''  aaaa bbbb cccc dddd eeee'' @ [NL] @ u ''ffff gggg hhhh iiii'')"
  by (simp add: two_space_paragraph_def reflow_eval textwrap_eval)

lemma two_space_code_eval:
  "collect (wrap_code_line (textwrap_fill ascii_db) 30) (py_split [NL] two_space_paragraph)
     = Inr [[u ''  aaaa bbbb cccc dddd eeee'', u ''  ffff gggg hhhh iiii'']]"
  by (simp add: two_space_paragraph_def reflow_eval textwrap_eval)

lemma fenced_paragraph_eval:
  "wrap_paragraph (textwrap_fill ascii_db) 30 fenced_paragraph
     = Inr (u ''```'' @ [NL] @ u ''    aaaa bbbb cccc dddd eeee'' @ [NL] @ u ''    ffff gggg hhhh'')"
  by (simp add: fenced_paragraph_def reflow_eval textwrap_eval)

lemma indented_line_eval_24:
  "wrap_code_line (textwrap_fill ascii_db) 24 indented_line
     = Inr [u ''    aaaa bbbb cccc dddd '', u ''eeee ffff'']"
  by (simp add: indented_line_def reflow_eval textwrap_eval)

lemma indented_line_eval_25:
  "wrap_code_line (textwrap_fill ascii_db) 25 indented_line
     = Inr [u ''    aaaa bbbb cccc dddd'', u ''    eeee ffff'']"
  by (simp add: indented_line_def reflow_eval textwrap_eval)

lemma long_code_line_length: "length long_code_line = 200"
  by (simp add: long_code_line_def u_def eval_nat_numeral)

lemma long_code_line_indent: "takeWhile isspace long_code_line = u ''    ''"
  by (simp add: long_code_line_def u_def isspace_def eval_nat_numeral)



section \<open>The claims\<close>

subsection \<open>C1\<close>

text \<open>
  C1, as the code has it. A text in which no line exceeds the width comes back unchanged,
  blank-line separators included, provided that outside a table text and outside code
  paragraphs every whitespace-only line is empty: the prose path replaces a whitespace-only
  line by the empty line (lines 117 and 118).
\<close>

theorem fitting_text_unchanged:
  assumes "\<forall>l \<in> set (py_split [NL] text). int (length l) \<le> width"
    and "has_box text \<or>
         (\<forall>p \<in> set (py_split [NL, NL] text).
            is_code_paragraph p \<or> (\<forall>l \<in> set (py_split [NL] p). py_strip l = [] \<longrightarrow> l = []))"
  shows "wrap_text_for_terminal fill terminal_size text (Some width) = Inr text"
  using assms by (rule unchanged_when_fitting)

theorem fitting_text_unchanged_witness:
  "py_split [NL] two_paragraphs = [u ''one two'', [], u ''three''] \<and>
   wrap_text_for_terminal (textwrap_fill ascii_db) (80, 24) two_paragraphs (Some 10) = Inr two_paragraphs"
  using fitting_text_unchanged [of two_paragraphs 10 "textwrap_fill ascii_db" "(80, 24)"]
  by (simp add: two_paragraphs_def u_def py_strip_def isspace_def)

text \<open>
  C1 as stated fails on a line that holds one space: every line fits the width, and the
  output is not the input.
\<close>

theorem whitespace_line_counterexample:
  "py_split [NL] blank_line_text = [u ''a'', [SPACE], u ''b''] \<and>
   wrap_text_for_terminal (textwrap_fill ascii_db) (80, 24) blank_line_text (Some 10)
     = Inr (u ''a'' @ [NL, NL] @ u ''b'') \<and>
   wrap_text_for_terminal (textwrap_fill ascii_db) (80, 24) blank_line_text (Some 10)
     \<noteq> Inr blank_line_text"
  by (simp add: blank_line_text_def wrap_text_for_terminal_def u_def has_box_def paragraph_path_def
    wrap_paragraph_def resolve_width_def is_code_paragraph_def py_strip_def isspace_def wrap_prose_line_def)

subsection \<open>C2\<close>

text \<open>
  C2, as the code has it. An over-length table line that contains the separator is split
  into cell fragments and reassembled greedily; every line that comes out either fits the
  width or is one single fragment with the separator that follows it, which the loop never
  cuts. (So no line exceeds the width when every fragment with its separator fits.)
\<close>

theorem table_line_widths:
  assumes "width < int (length line)" and "BOX_V \<in> set line"
  shows "\<exists>out. wrap_table_line fill width line = Inr out \<and>
           (\<forall>l \<in> set out. int (length l) \<le> width \<or> l \<in> set (fragments (py_split [BOX_V] line)))"
proof -
  have "wrap_table_line fill width line = Inr (reassemble width [] (py_split [BOX_V] line))"
    using assms by (simp add: wrap_table_line_def)
  moreover have "\<forall>l \<in> set (reassemble width [] (py_split [BOX_V] line)).
      int (length l) \<le> width \<or> l \<in> set (fragments (py_split [BOX_V] line))"
    using reassemble_lines[of _ width "[]" "py_split [BOX_V] line"] by auto
  ultimately show ?thesis by simp
qed

theorem table_line_widths_witness:
  "10 < int (length table_scenario) \<and> BOX_V \<in> set table_scenario \<and>
   (\<exists>out. wrap_table_line (textwrap_fill ascii_db) 10 table_scenario = Inr out \<and>
      (\<forall>l \<in> set out. int (length l) \<le> 10 \<or> l \<in> set (fragments (py_split [BOX_V] table_scenario))))"
  using table_line_widths [of 10 table_scenario "textwrap_fill ascii_db"]
  by (simp add: table_scenario_def u_def)

text \<open>
  C2 as stated fails on its own scenario: at width 10 the middle cell comes out with its
  separator as a line of 13 characters.
\<close>

theorem table_scenario_counterexample:
  "wrap_table_line (textwrap_fill ascii_db) 10 table_scenario
     = Inr [u ''a '' @ [BOX_V], u '' bbbbbbbbbb '' @ [BOX_V], u '' c'']
   \<and> 10 < int (length (u '' bbbbbbbbbb '' @ [BOX_V]))
   \<and> wrap_text_for_terminal (textwrap_fill ascii_db) (80, 24) table_scenario (Some 10)
     = Inr (u ''a '' @ [BOX_V, NL] @ u '' bbbbbbbbbb '' @ [BOX_V, NL] @ u '' c'')"
  by (simp add: table_scenario_def u_def wrap_table_line_def wrap_text_for_terminal_def
      has_box_def table_path_def resolve_width_def)

subsection \<open>C3\<close>

text \<open>
  C3, as the code has it. A paragraph whose first non-whitespace content is a triple-backtick
  fence goes through the code path. A paragraph that has no such fence and begins neither
  with four spaces nor with a tab goes through the prose path, whatever other leading
  whitespace it has. (Nothing is said here about a paragraph that begins with four spaces
  or a tab.)
\<close>

theorem code_classification:
  "(prefix [BACKTICK, BACKTICK, BACKTICK] (py_strip paragraph) \<longrightarrow>
      wrap_paragraph fill width paragraph
        = (case collect (wrap_code_line fill width) (py_split [NL] paragraph) of
             Inl e \<Rightarrow> Inl e
           | Inr wrapped_lines \<Rightarrow> Inr (py_join [NL] (concat wrapped_lines)))) \<and>
   (\<not> prefix [BACKTICK, BACKTICK, BACKTICK] (py_strip paragraph) \<and>
    \<not> prefix [SPACE, SPACE, SPACE, SPACE] paragraph \<and> \<not> prefix [TAB] paragraph \<longrightarrow>
      wrap_paragraph fill width paragraph
        = (case collect (wrap_prose_line fill width) (py_split [NL] paragraph) of
             Inl e \<Rightarrow> Inl e
           | Inr wrapped_lines \<Rightarrow> Inr (py_join [NL] (concat wrapped_lines))))"
  by (simp add: wrap_paragraph_def is_code_paragraph_fence)

text \<open>
  A fenced paragraph keeps the indent of its wrapped line; a paragraph that begins with two
  spaces is filled as prose.
\<close>

theorem code_classification_witness:
  "prefix [BACKTICK, BACKTICK, BACKTICK] (py_strip fenced_paragraph) \<and>
   wrap_paragraph (textwrap_fill ascii_db) 30 fenced_paragraph
     = Inr (u ''```'' @ [NL] @ u ''    aaaa bbbb cccc dddd eeee'' @ [NL] @ u ''    ffff gggg hhhh'') \<and>
   wrap_paragraph (textwrap_fill ascii_db) 30 two_space_paragraph
     = Inr (u ''  aaaa bbbb cccc dddd eeee'' @ [NL] @ u ''ffff gggg hhhh iiii'')"
proof -
  have "prefix [BACKTICK, BACKTICK, BACKTICK] (py_strip fenced_paragraph)"
    by (simp add: fenced_paragraph_def u_def py_strip_def isspace_def)
  then show ?thesis
    using code_classification [of fenced_paragraph "textwrap_fill ascii_db" 30]
      code_classification [of two_space_paragraph "textwrap_fill ascii_db" 30]
      fenced_paragraph_eval two_space_prose_eval
    by simp
qed

text \<open>
  C3 as stated fails on a paragraph whose first line begins with two spaces: it is not
  classified as code and its continuation line loses the indent, which the code path would
  have kept (last conjunct).
\<close>

theorem two_space_counterexample:
  "prefix [SPACE, SPACE] two_space_paragraph \<and>
   \<not> is_code_paragraph two_space_paragraph \<and>
   wrap_text_for_terminal (textwrap_fill ascii_db) (80, 24) two_space_paragraph (Some 30)
     = Inr (u ''  aaaa bbbb cccc dddd eeee'' @ [NL] @ u ''ffff gggg hhhh iiii'') \<and>
   collect (wrap_code_line (textwrap_fill ascii_db) 30) (py_split [NL] two_space_paragraph)
     = Inr [[u ''  aaaa bbbb cccc dddd eeee'', u ''  ffff gggg hhhh iiii'']]"
proof -
  have "prefix [SPACE, SPACE] two_space_paragraph"
    and "\<not> is_code_paragraph two_space_paragraph"
    and "\<not> has_box two_space_paragraph"
    and "py_split [NL, NL] two_space_paragraph = [two_space_paragraph]"
    by (simp_all add: two_space_paragraph_def u_def is_code_paragraph_def py_strip_def isspace_def
        has_box_def)
  then show ?thesis
    using two_space_prose_eval two_space_code_eval
    by (simp add: wrap_text_for_terminal_def paragraph_path_def resolve_width_def)
qed

subsection \<open>C4\<close>

text \<open>
  C4, as the code has it. With a width of at least 1, or with no width argument, the function
  returns a string for every text; the loops of the library end, also on a token wider than
  the width.
\<close>

theorem returns_for_positive_width:
  "(0 < w \<longrightarrow> (\<exists>out. wrap_text_for_terminal (textwrap_fill U) terminal_size text (Some w) = Inr out)) \<and>
   (\<exists>out. wrap_text_for_terminal (textwrap_fill U) terminal_size text None = Inr out)"
proof -
  have "0 < resolve_width terminal_size None"
    by (auto simp: resolve_width_def max_def split: prod.splits)
  then show ?thesis
    using table_path_returns paragraph_path_returns
    by (simp add: wrap_text_for_terminal_def) (simp add: resolve_width_def)
qed

text \<open>
  A single token of ten characters at width 3 is cut into four lines.
\<close>

theorem returns_for_positive_width_witness:
  "wrap_text_for_terminal (textwrap_fill ascii_db) (80, 24) (u ''abcdefghij'') (Some 3)
     = Inr (u ''abc'' @ [NL] @ u ''def'' @ [NL] @ u ''ghi'' @ [NL] @ u ''j'') \<and>
   wrap_text_for_terminal (textwrap_fill ascii_db) (80, 24) (u ''abcdefghij'') None
     = Inr (u ''abcdefghij'')"
  using returns_for_positive_width [of 3 ascii_db "(80, 24)" "u ''abcdefghij''"]
  by (simp add: reflow_eval textwrap_eval)

text \<open>
  C4 as stated fails at the widths 0 and -3: the prose path hands the line to the library,
  which raises \<open>ValueError\<close> on a width that is not positive.
\<close>

theorem zero_width_counterexample:
  "wrap_text_for_terminal (textwrap_fill ascii_db) (80, 24) (u ''aaa'') (Some 0) = Inl ValueError \<and>
   wrap_text_for_terminal (textwrap_fill ascii_db) (80, 24) (u ''aaa'') (Some (- 3)) = Inl ValueError"
  by (simp add: reflow_eval textwrap_fill_raises py_strip_def isspace_def u_def)

subsection \<open>C5\<close>

text \<open>
  C5, as the code has it. For an over-length line of a code paragraph with more than 20
  columns left after the indent, the leading whitespace is the prefix of every output line,
  and the rest of the line is word-filled by the library into the width less the length of
  the prefix: the library returns, and none of its lines is longer than that.
\<close>

theorem code_line_prefix:
  assumes "width < int (length line)" and "20 < width - int (length (takeWhile isspace line))"
  shows "\<exists>wrapped.
           textwrap_fill U (py_lstrip line) (width - int (length (takeWhile isspace line))) = Inr wrapped \<and>
           wrap_code_line (textwrap_fill U) width line
             = Inr (map (\<lambda>l. takeWhile isspace line @ l) (py_split [NL] wrapped)) \<and>
           (\<forall>l \<in> set (py_split [NL] wrapped).
              int (length l) \<le> width - int (length (takeWhile isspace line))) \<and>
           takeWhile isspace line @ py_lstrip line = line"
proof -
  define cw where "cw = width - int (length (takeWhile isspace line))"
  have pos: "0 < cw" using assms(2) by (simp add: cw_def)
  obtain wrapped where w: "textwrap_fill U (py_lstrip line) cw = Inr wrapped"
    using textwrap_fill_returns[OF pos] by blast
  have "wrap_code_line (textwrap_fill U) width line
             = Inr (map (\<lambda>l. takeWhile isspace line @ l) (py_split [NL] wrapped))"
    using wrap_code_line_long[OF assms(1), of "textwrap_fill U"] assms(2) w by (simp add: cw_def)
  moreover have "\<forall>l \<in> set (py_split [NL] wrapped). int (length l) \<le> cw"
    using textwrap_fill_lines[OF pos w] .
  ultimately show ?thesis using w by (auto simp: cw_def py_lstrip_def)
qed

text \<open>
  The scenario: a line of 200 characters with an indent of four, at width 30, is filled into
  26 columns and every line gets the four spaces.
\<close>

theorem code_line_prefix_witness:
  "length long_code_line = 200 \<and>
   takeWhile isspace long_code_line = u ''    '' \<and>
   (\<exists>wrapped.
      textwrap_fill ascii_db (py_lstrip long_code_line) 26 = Inr wrapped \<and>
      wrap_code_line (textwrap_fill ascii_db) 30 long_code_line
        = Inr (map (\<lambda>l. u ''    '' @ l) (py_split [NL] wrapped)) \<and>
      (\<forall>l \<in> set (py_split [NL] wrapped). int (length l) \<le> 26))"
  using code_line_prefix [of 30 long_code_line ascii_db]
    long_code_line_length long_code_line_indent
  by (auto simp: u_def)

text \<open>
  C5 as stated fails where 20 columns or fewer are left: at width 20 a line indented by four
  is cut inside a word and its continuation has no prefix.
\<close>

theorem deep_indent_counterexample:
  "is_code_paragraph deep_code_text \<and>
   wrap_text_for_terminal (textwrap_fill ascii_db) (80, 24) deep_code_text (Some 20)
     = Inr (u ''```'' @ [NL] @ u ''    aaaa bbbb cccc d'' @ [NL] @ u ''ddd eeee ffff'')"
  by (simp add: deep_code_text_def indented_line_def reflow_eval textwrap_eval)

subsection \<open>C6\<close>




subsection \<open>C7\<close>

text \<open>
  C7. A text that holds one of the six box-drawing characters anywhere goes, whole, through
  the table path, line by line and with no paragraph splitting; any other text is split on
  blank lines into paragraphs, which are processed one by one and joined with blank lines.
\<close>

theorem table_detection:
  "(set text \<inter> {BOX_V, BOX_H, BOX_DR, BOX_DL, BOX_UR, BOX_UL} \<noteq> {} \<longrightarrow>
      wrap_text_for_terminal fill terminal_size text width
        = (case collect (wrap_table_line fill (resolve_width terminal_size width)) (py_split [NL] text) of
             Inl e \<Rightarrow> Inl e
           | Inr wrapped_lines \<Rightarrow> Inr (py_join [NL] (concat wrapped_lines)))) \<and>
   (set text \<inter> {BOX_V, BOX_H, BOX_DR, BOX_DL, BOX_UR, BOX_UL} = {} \<longrightarrow>
      wrap_text_for_terminal fill terminal_size text width
        = (case collect (wrap_paragraph fill (resolve_width terminal_size width)) (py_split [NL, NL] text) of
             Inl e \<Rightarrow> Inl e
           | Inr wrapped_paragraphs \<Rightarrow> Inr (py_join [NL, NL] wrapped_paragraphs)))"
  by (auto simp: wrap_text_for_terminal_def has_box_def table_path_def paragraph_path_def)

text \<open>
  The two texts differ by one stray bar in the first line: with the bar the whitespace-only
  line stays (table path), without it the prose path empties it.
\<close>

theorem table_detection_witness:
  "set stray_bar_text \<inter> {BOX_V, BOX_H, BOX_DR, BOX_DL, BOX_UR, BOX_UL} \<noteq> {} \<and>
   wrap_text_for_terminal (textwrap_fill ascii_db) (80, 24) stray_bar_text (Some 20) = Inr stray_bar_text \<and>
   set no_bar_text \<inter> {BOX_V, BOX_H, BOX_DR, BOX_DL, BOX_UR, BOX_UL} = {} \<and>
   wrap_text_for_terminal (textwrap_fill ascii_db) (80, 24) no_bar_text (Some 20)
     = Inr (u ''see a b'' @ [NL, NL] @ u ''end'')"
  using table_detection [of stray_bar_text "textwrap_fill ascii_db" "(80, 24)" "Some 20"]
    table_detection [of no_bar_text "textwrap_fill ascii_db" "(80, 24)" "Some 20"]
  by (simp add: stray_bar_text_def no_bar_text_def u_def resolve_width_def wrap_table_line_def
     wrap_paragraph_def is_code_paragraph_def py_strip_def isspace_def wrap_prose_line_def)

subsection \<open>C8\<close>

text \<open>
  C8. Without a width argument the width is \<open>max(50, terminal_columns - 15)\<close>: a terminal
  of 40 columns gives 50, and the function behaves as if called with that width.
\<close>

theorem width_resolution:
  "resolve_width (cols, rows) None = max 50 (cols - 15) \<and>
   resolve_width (40, rows) None = 50 \<and>
   wrap_text_for_terminal fill (cols, rows) text None
     = wrap_text_for_terminal fill (cols, rows) text (Some (max 50 (cols - 15)))"
  by (simp add: resolve_width_def wrap_text_for_terminal_def)

theorem width_resolution_witness:
  "resolve_width (40, 24) None = 50 \<and>
   wrap_text_for_terminal (textwrap_fill ascii_db) (40, 24) (u ''aaa'') None
     = wrap_text_for_terminal (textwrap_fill ascii_db) (40, 24) (u ''aaa'') (Some 50)"
  using width_resolution [of 40 24 "textwrap_fill ascii_db" "u ''aaa''"] by simp

subsection \<open>C9\<close>

text \<open>
  C9, as the code has it. For an over-length line of a code paragraph the test is
  \<open>content_width > 20\<close> (line 97): the line is cut at the width, with the remainder on the
  next line, exactly when the width left after the indent is at most 20; from 21 on, the
  content is word-filled and the indent put back before every line.
\<close>

theorem code_line_threshold:
  assumes "width < int (length line)"
  shows "(width - int (length (takeWhile isspace line)) \<le> 20 \<longrightarrow>
           wrap_code_line fill width line = Inr [py_upto line width, py_from line width]) \<and>
         (20 < width - int (length (takeWhile isspace line)) \<longrightarrow>
           wrap_code_line fill width line =
             (case fill (py_lstrip line) (width - int (length (takeWhile isspace line))) of
                Inl e \<Rightarrow> Inl e
              | Inr wrapped \<Rightarrow> Inr (map (\<lambda>l. takeWhile isspace line @ l) (py_split [NL] wrapped))))"
  using wrap_code_line_long[OF assms, of fill] by simp

text \<open>
  The same line, indented by four, at the widths 24 and 25: 20 columns left give the cut,
  21 give the word fill.
\<close>

theorem code_line_threshold_witness:
  "wrap_code_line (textwrap_fill ascii_db) 24 indented_line
     = Inr [u ''    aaaa bbbb cccc dddd '', u ''eeee ffff''] \<and>
   wrap_code_line (textwrap_fill ascii_db) 25 indented_line
     = Inr [u ''    aaaa bbbb cccc dddd'', u ''    eeee ffff'']"
  using code_line_threshold [of 24 indented_line "textwrap_fill ascii_db"]
    code_line_threshold [of 25 indented_line "textwrap_fill ascii_db"]
    indented_line_eval_24 indented_line_eval_25
  by simp

text \<open>
  C9 as stated fails at exactly 20 columns left: the line is cut, and the word fill that the
  claim expects there would have given other lines.
\<close>

theorem threshold_counterexample:
  "24 - int (length (takeWhile isspace indented_line)) = 20 \<and>
   wrap_code_line (textwrap_fill ascii_db) 24 indented_line
     = Inr [u ''    aaaa bbbb cccc dddd '', u ''eeee ffff''] \<and>
   (case textwrap_fill ascii_db (py_lstrip indented_line) 20 of
      Inl e \<Rightarrow> Inl e
    | Inr wrapped \<Rightarrow> Inr (map ((@) (takeWhile isspace indented_line)) (py_split [NL] wrapped)))
     = Inr [u ''    aaaa bbbb cccc dddd'', u ''    eeee ffff'']"
  by (simp add: indented_line_def reflow_eval textwrap_eval)

subsection \<open>C10\<close>

text \<open>
  C10. For an over-length table line that contains the separator, the lines the loop emits,
  concatenated in order, are the input line: no character is lost or duplicated.
\<close>

theorem table_line_concat:
  assumes "width < int (length line)" and "BOX_V \<in> set line"
  shows "\<exists>out. wrap_table_line fill width line = Inr out \<and> concat out = line"
  using assms by (simp add: wrap_table_line_def reassemble_concat py_join_split)

theorem table_line_concat_witness:
  "10 < int (length table_scenario) \<and> BOX_V \<in> set table_scenario \<and>
   (\<exists>out. wrap_table_line (textwrap_fill ascii_db) 10 table_scenario = Inr out
          \<and> concat out = table_scenario)"
  using table_line_concat [of 10 table_scenario "textwrap_fill ascii_db"]
  by (simp add: table_scenario_def u_def)

end
